theory Spec2Isabelle
  imports Main "HOL-Library.Sublist"
begin

section \<open>Strings\<close>

text \<open>
  A Python \<open>str\<close> is a sequence of Unicode code points, and the pipeline's keywords and
  message templates are mostly Chinese, so a string is modelled as the list of its code
  points (\<open>ord\<close> of every character). ASCII text is written through \<open>asc\<close>.
\<close>

type_synonym str = "nat list"

definition asc :: "string \<Rightarrow> str" where
  "asc s = map of_char s"

text \<open>Python's \<open>k in s\<close> on strings: \<open>k\<close> occurs in \<open>s\<close> as a contiguous substring.\<close>

fun py_in :: "str \<Rightarrow> str \<Rightarrow> bool" where
  "py_in k [] = (k = [])"
| "py_in k (c # cs) = (prefix k (c # cs) \<or> py_in k cs)"

text \<open>
  \<open>str(n)\<close> for a Python integer, as the f-string \<open>{response.status_code}\<close> renders it.
\<close>

function digits :: "nat \<Rightarrow> str" where
  "digits n = (if n < 10 then [48 + n] else digits (n div 10) @ [48 + n mod 10])"
  by pat_completeness auto
termination
  by (relation "measure (\<lambda>n. n)") auto

definition str_of_int :: "int \<Rightarrow> str" where
  "str_of_int i = (if i < 0 then 45 # digits (nat (- i)) else digits (nat i))"

section \<open>The two regular expressions\<close>

text \<open>
  \<open>\s\<close> in a \<open>str\<close> pattern is the character class of \<open>Py_UNICODE_ISSPACE\<close>: the ASCII
  controls 9 to 13 and 28 to 31, the space, and the Unicode separators listed here.
\<close>

definition is_space :: "nat \<Rightarrow> bool" where
  "is_space c \<longleftrightarrow>
     (9 \<le> c \<and> c \<le> 13) \<or> (28 \<le> c \<and> c \<le> 32) \<or> c = 133 \<or> c = 160 \<or> c = 5760
     \<or> (8192 \<le> c \<and> c \<le> 8202) \<or> c = 8232 \<or> c = 8233 \<or> c = 8239 \<or> c = 8287
     \<or> c = 12288"

definition strip_prefix :: "str \<Rightarrow> str \<Rightarrow> str option" where
  "strip_prefix p s = (if prefix p s then Some (drop (length p) s) else None)"

text \<open>
  \<open>://[^\s]+\<close> tried at the start of a string. The greedy \<open>+\<close> is the last item of the
  pattern, so it takes the whole run of non-space characters and never gives any back;
  it needs at least one.
\<close>

definition url_rest :: "str \<Rightarrow> str option" where
  "url_rest r =
     (case strip_prefix (asc ''://'') r of
        None \<Rightarrow> None
      | Some t \<Rightarrow>
          (let body = takeWhile (\<lambda>c. \<not> is_space c) t
           in if body = [] then None else Some (asc ''://'' @ body)))"

text \<open>
  \<open>https?://[^\s]+\<close> tried at the start of a string; the result is \<open>group(0)\<close>. The
  greedy \<open>s?\<close> first tries to take an \<open>s\<close> and falls back to taking none.
\<close>

definition match_url :: "str \<Rightarrow> str option" where
  "match_url s =
     (case strip_prefix (asc ''http'') s of
        None \<Rightarrow> None
      | Some r \<Rightarrow>
          (case (case r of [] \<Rightarrow> None
                 | c # r' \<Rightarrow> if c = 115 then url_rest r' else None) of
             Some m \<Rightarrow> Some (asc ''https'' @ m)
           | None \<Rightarrow>
               (case url_rest r of
                  None \<Rightarrow> None
                | Some m \<Rightarrow> Some (asc ''http'' @ m))))"

text \<open>
  \<open>re.search\<close>: the pattern is tried at every start position from left to right, the
  end of the string included, and the first position that has a match gives the result.
  The argument \<open>m\<close> is the pattern tried at the start of a string.
\<close>

fun re_search :: "(str \<Rightarrow> 'a option) \<Rightarrow> str \<Rightarrow> 'a option" where
  "re_search m [] = m []"
| "re_search m (c # cs) =
     (case m (c # cs) of Some x \<Rightarrow> Some x | None \<Rightarrow> re_search m cs)"

definition re_search_url :: "str \<Rightarrow> str option" where
  "re_search_url s = re_search match_url s"

definition is_quote :: "nat \<Rightarrow> bool" where
  "is_quote c \<longleftrightarrow> c = 34 \<or> c = 39"

text \<open>
  \<open>["\']([^"\']+)["\']\<close> tried at the start of a string; the result is the match
  object, as the pair of \<open>group(0)\<close> and \<open>group(1)\<close>. The class \<open>["\']\<close> stands on
  both sides, so the opening and the closing quote are each either of the two quote
  characters. The greedy run stops at the first quote character or at the end of the
  string, and giving characters back cannot help: the character after a shorter run is
  not a quote.
\<close>

definition match_quoted :: "str \<Rightarrow> (str \<times> str) option" where
  "match_quoted s =
     (case s of
        [] \<Rightarrow> None
      | q # t \<Rightarrow>
          if is_quote q then
            (let body = takeWhile (\<lambda>c. \<not> is_quote c) t
             in if body = [] then None
                else (case dropWhile (\<lambda>c. \<not> is_quote c) t of
                        [] \<Rightarrow> None
                      | q' # _ \<Rightarrow>
                          if is_quote q' then Some (q # body @ [q'], body) else None))
          else None)"

definition re_search_quoted :: "str \<Rightarrow> (str \<times> str) option" where
  "re_search_quoted s = re_search match_quoted s"

section \<open>Constants of the pipeline\<close>

text \<open>
  \<open>browser_keywords\<close> of \<open>pipe\<close>, in the order of the source; the Chinese entries are
  given by code point: open-web-page, open-web-site, visit, browse, web-page, web-site,
  extract-data, grab, crawl, fetch-content, screenshot, click, type-in, search,
  fill-in-form, download.
\<close>

definition browser_keywords :: "str list" where
  "browser_keywords =
     [[25171, 24320, 32593, 39029], [25171, 24320, 32593, 31449], [35775, 38382],
      [27983, 35272], [32593, 39029], [32593, 31449],
      [25552, 21462, 25968, 25454], [25235, 21462], [29228, 21462],
      [33719, 21462, 20869, 23481], [25130, 22270],
      [28857, 20987], [36755, 20837], [25628, 32034], [22635, 20889, 34920, 21333],
      [19979, 36733],
      asc ''open website'', asc ''visit'', asc ''browse'', asc ''extract'', asc ''scrape'',
      asc ''click'', asc ''input'', asc ''search'', asc ''screenshot'']"

text \<open>The keyword list of \<open>_execute_browser_task\<close>: extract, grab, fetch and two English words.\<close>

definition extract_keywords :: "str list" where
  "extract_keywords =
     [[25552, 21462], [25235, 21462], [33719, 21462], asc ''extract'', asc ''scrape'']"

text \<open>The Chinese word for selector, tested by \<open>_extract_data\<close>.\<close>

definition selector_word :: str where
  "selector_word = [36873, 25321, 22120]"

text \<open>The pieces of the f-strings that build the task description.\<close>

definition visit_prefix :: str where
  "visit_prefix = [35775, 38382, 32]"

definition then_infix :: str where
  "then_infix = [32, 28982, 21518, 32]"

definition selector_infix :: str where
  "selector_infix = [65292, 20351, 29992, 36873, 25321, 22120, 58, 32]"

text \<open>The result strings of \<open>_execute_general_task\<close> (lines 98 to 103).\<close>

definition general_default :: str where
  "general_default = [20219, 21153, 24050, 23436, 25104]"

definition general_done :: str where
  "general_done = [9989, 32, 20219, 21153, 25191, 34892, 23436, 25104, 10, 10]"

definition general_failed :: str where
  "general_failed =
     [10060, 32, 20219, 21153, 25191, 34892, 22833, 36133, 10, 10,
      21709, 24212, 26684, 24335, 24322, 24120]"

text \<open>The result strings of \<open>_extract_data\<close> (lines 143 to 148).\<close>

definition extract_default :: str where
  "extract_default = [25968, 25454, 25552, 21462, 23436, 25104]"

definition extract_done :: str where
  "extract_done = [9989, 32, 25968, 25454, 25552, 21462, 23436, 25104, 10, 10]"

definition extract_failed :: str where
  "extract_failed =
     [10060, 32, 25968, 25454, 25552, 21462, 22833, 36133, 10, 10,
      21709, 24212, 26684, 24335, 24322, 24120]"

text \<open>The server-error f-string, the same in both functions.\<close>

definition server_error :: "int \<Rightarrow> str \<Rightarrow> str" where
  "server_error status body =
     [10060, 32, 26381, 21153, 22120, 38169, 35823, 32, 40] @ str_of_int status
     @ asc ''): '' @ body"

text \<open>The three strings of the exception handlers of \<open>_execute_browser_task\<close>.\<close>

definition cannot_connect :: str where
  "cannot_connect =
     [10060, 32, 26080, 27861, 36830, 25509, 21040, 32, 67, 104, 114, 111, 109, 101, 32,
      65, 103, 101, 110, 116, 32, 26381, 21153, 22120, 65292, 35831, 30830, 20445, 26381,
      21153, 27491, 22312, 36816, 34892]"

definition timed_out :: str where
  "timed_out =
     [9201, 65039, 32, 35831, 27714, 36229, 26102, 65292, 20219, 21153, 21487, 33021,
      38656, 35201, 26356, 38271, 26102, 38388, 25191, 34892]"

definition execution_failed :: "str \<Rightarrow> str" where
  "execution_failed d = [10060, 32, 25191, 34892, 22833, 36133, 58, 32] @ d"

section \<open>Python values, exceptions and the HTTP exchange\<close>

text \<open>
  What \<open>response.json()\<close> returns: \<open>None\<close>, a bool, an int, a float, a \<open>str\<close>, a list
  or a dict with string keys. A dict is an association list read with \<open>map_of\<close>. A
  float stays abstract; the interpreter supplies its truth value.
\<close>

typedecl pyfloat

datatype jvalue =
    JNull
  | JBool bool
  | JInt int
  | JFloat pyfloat
  | JStr str
  | JArr "jvalue list"
  | JObj "(str \<times> jvalue) list"

text \<open>
  An instance of \<open>Exception\<close>, by what the handlers of \<open>_execute_browser_task\<close> look at:
  whether it is an instance of \<open>requests.exceptions.ConnectionError\<close>, whether it is an
  instance of \<open>requests.exceptions.Timeout\<close>, and \<open>str(e)\<close>. The two classes are not
  disjoint: \<open>requests.exceptions.ConnectTimeout\<close> derives from both.
\<close>

datatype exn = Exn (is_connection_error: bool) (is_timeout: bool) (detail: str)

record message =
  role :: str
  content :: str

record payload =
  model :: str
  messages :: "message list"
  stream :: bool

text \<open>One call \<open>requests.post(url, json=payload, timeout=t)\<close>.\<close>

record request =
  req_url :: str
  req_json :: payload
  req_timeout :: int

text \<open>
  A \<open>requests.Response\<close>: \<open>status_code\<close>, \<open>text\<close>, and what \<open>json()\<close> does, which is to
  return the decoded value or to raise a \<open>JSONDecodeError\<close> with the given \<open>str(e)\<close>.
\<close>

record response =
  status_code :: int
  body_text :: str
  json :: "str + jvalue"

text \<open>
  The library functions the pipeline calls and that are not part of it: \<open>str.lower\<close>,
  the truth value of a float, \<open>str(v)\<close> of a decoded value, and \<open>requests.post\<close>, which
  returns a response or raises.
\<close>

record pyenv =
  lower :: "str \<Rightarrow> str"
  float_truth :: "pyfloat \<Rightarrow> bool"
  py_str :: "jvalue \<Rightarrow> str"
  post :: "request \<Rightarrow> exn + response"

record valves =
  chrome_agent_url :: str
  enable_auto_detection :: bool
  timeout :: int

section \<open>The operations of the interpreter on decoded values\<close>

definition type_name :: "jvalue \<Rightarrow> str" where
  "type_name v =
     (case v of
        JNull \<Rightarrow> asc ''NoneType''
      | JBool _ \<Rightarrow> asc ''bool''
      | JInt _ \<Rightarrow> asc ''int''
      | JFloat _ \<Rightarrow> asc ''float''
      | JStr _ \<Rightarrow> asc ''str''
      | JArr _ \<Rightarrow> asc ''list''
      | JObj _ \<Rightarrow> asc ''dict'')"

text \<open>
  The exceptions the interpreter raises on a value of the wrong type. None of them is a
  \<open>ConnectionError\<close> or a \<open>Timeout\<close>; the string is \<open>str(e)\<close>. Code point 39 is the
  single quote.
\<close>

definition attribute_error :: "jvalue \<Rightarrow> exn" where
  "attribute_error v =
     Exn False False
       ([39] @ type_name v @ [39] @ asc '' object has no attribute '' @ [39] @ asc ''get''
        @ [39])"

definition len_type_error :: "jvalue \<Rightarrow> exn" where
  "len_type_error v =
     Exn False False (asc ''object of type '' @ [39] @ type_name v @ [39] @ asc '' has no len()'')"

definition subscript_type_error :: "jvalue \<Rightarrow> exn" where
  "subscript_type_error v =
     Exn False False ([39] @ type_name v @ [39] @ asc '' object is not subscriptable'')"

definition json_decode_error :: "str \<Rightarrow> exn" where
  "json_decode_error d = Exn False False d"

text \<open>Running one step after another: the first exception raised ends the sequence.\<close>

definition andthen :: "exn + 'a \<Rightarrow> ('a \<Rightarrow> exn + 'b) \<Rightarrow> exn + 'b" where
  "andthen x f = (case x of Inl e \<Rightarrow> Inl e | Inr v \<Rightarrow> f v)"

text \<open>The truth value of a decoded value, as \<open>and\<close> and \<open>if\<close> take it.\<close>

definition truthy :: "pyenv \<Rightarrow> jvalue \<Rightarrow> bool" where
  "truthy E v =
     (case v of
        JNull \<Rightarrow> False
      | JBool b \<Rightarrow> b
      | JInt i \<Rightarrow> i \<noteq> 0
      | JFloat x \<Rightarrow> float_truth E x
      | JStr s \<Rightarrow> s \<noteq> []
      | JArr xs \<Rightarrow> xs \<noteq> []
      | JObj kvs \<Rightarrow> kvs \<noteq> [])"

text \<open>\<open>v.get(k, d)\<close>: only a dict has the method.\<close>

definition dict_get :: "jvalue \<Rightarrow> str \<Rightarrow> jvalue \<Rightarrow> exn + jvalue" where
  "dict_get v k d =
     (case v of
        JObj kvs \<Rightarrow> Inr (case map_of kvs k of None \<Rightarrow> d | Some x \<Rightarrow> x)
      | _ \<Rightarrow> Inl (attribute_error v))"

text \<open>\<open>len(v)\<close>: a list, a string and a dict have a length.\<close>

definition py_len :: "jvalue \<Rightarrow> exn + nat" where
  "py_len v =
     (case v of
        JArr xs \<Rightarrow> Inr (length xs)
      | JStr s \<Rightarrow> Inr (length s)
      | JObj kvs \<Rightarrow> Inr (length kvs)
      | _ \<Rightarrow> Inl (len_type_error v))"

text \<open>
  \<open>v[0]\<close>: the first element of a list, the first character of a string; on a dict
  decoded from JSON the key \<open>0\<close> is never present, since every key is a string, and
  \<open>str(KeyError(0))\<close> is \<open>0\<close>.
\<close>

definition index0 :: "jvalue \<Rightarrow> exn + jvalue" where
  "index0 v =
     (case v of
        JArr xs \<Rightarrow>
          (case xs of [] \<Rightarrow> Inl (Exn False False (asc ''list index out of range''))
           | x # _ \<Rightarrow> Inr x)
      | JStr s \<Rightarrow>
          (case s of [] \<Rightarrow> Inl (Exn False False (asc ''string index out of range''))
           | c # _ \<Rightarrow> Inr (JStr [c]))
      | JObj _ \<Rightarrow> Inl (Exn False False (asc ''0''))
      | _ \<Rightarrow> Inl (subscript_type_error v))"

text \<open>A value inside an f-string: a string as it is, anything else through \<open>str\<close>.\<close>

definition format_value :: "pyenv \<Rightarrow> jvalue \<Rightarrow> str" where
  "format_value E v = (case v of JStr s \<Rightarrow> s | _ \<Rightarrow> py_str E v)"

section \<open>The pipeline\<close>

text \<open>
  The effect of the pipeline is the sequence of calls of \<open>requests.post\<close>: every function
  that may call it takes the log of the calls made so far and returns the new log. A
  function that may raise returns \<open>Inl\<close> of the exception.
\<close>

text \<open>
  Lines 94 to 103 and 139 to 148: what the two task functions do with the response.
  They differ in three strings only, which are the first three arguments here: the
  default of \<open>message.get("content", ...)\<close>, the prefix of the success string and the
  failure string. \<open>result["choices"]\<close> is evaluated only after \<open>result.get("choices")\<close>
  has returned a value that is true, so it is that value.
\<close>

definition read_response :: "str \<Rightarrow> str \<Rightarrow> str \<Rightarrow> pyenv \<Rightarrow> response \<Rightarrow> exn + str" where
  "read_response dflt done failed E r =
     (if status_code r = 200 then
        andthen (case json r of Inl d \<Rightarrow> Inl (json_decode_error d) | Inr v \<Rightarrow> Inr v)
          (\<lambda>result.
        andthen (dict_get result (asc ''choices'') JNull)
          (\<lambda>choices.
        andthen (if truthy E choices
                 then andthen (py_len choices) (\<lambda>n. Inr (n > 0))
                 else Inr False)
          (\<lambda>ok.
             if ok then
               andthen (index0 choices)
                 (\<lambda>first.
               andthen (dict_get first (asc ''message'') (JObj []))
                 (\<lambda>message.
               andthen (dict_get message (asc ''content'') (JStr dflt))
                 (\<lambda>content. Inr (done @ format_value E content))))
             else Inr failed)))
      else Inr (server_error (status_code r) (body_text r)))"

text \<open>The payload and the call of \<open>requests.post\<close>, the same in both task functions.\<close>

definition chat_request :: "valves \<Rightarrow> str \<Rightarrow> request" where
  "chat_request V c =
     \<lparr>req_url = chrome_agent_url V @ asc ''/api/v1/chat/completions'',
      req_json =
        \<lparr>model = asc ''chrome-agent-v1'',
         messages = [\<lparr>role = asc ''user'', content = c\<rparr>],
         stream = False\<rparr>,
      req_timeout = timeout V\<rparr>"

definition requests_post ::
  "pyenv \<Rightarrow> request \<Rightarrow> request list \<Rightarrow> (exn + response) \<times> request list" where
  "requests_post E req log = (post E req, log @ [req])"

text \<open>
  \<open>if url:\<close> and \<open>if selector:\<close> take \<open>None\<close> and the empty string as false: the case
  distinctions below have a branch for each.
\<close>

text \<open>Lines 76 to 78: the task description of \<open>_execute_general_task\<close>.\<close>

definition full_task_of :: "str \<Rightarrow> str option \<Rightarrow> str" where
  "full_task_of task url =
     (case url of
        None \<Rightarrow> task
      | Some u \<Rightarrow> if u = [] then task else visit_prefix @ u @ then_infix @ task)"

definition execute_general_task ::
  "pyenv \<Rightarrow> valves \<Rightarrow> str \<Rightarrow> str option \<Rightarrow> request list \<Rightarrow> (exn + str) \<times> request list" where
  "execute_general_task E V task url log =
     (let (answer, log') = requests_post E (chat_request V (full_task_of task url)) log
      in (andthen answer (read_response general_default general_done general_failed E),
          log'))"

text \<open>Lines 109 to 114: the selector, \<open>group(1)\<close> of the first match when a trigger is there.\<close>

definition selector_of :: "pyenv \<Rightarrow> str \<Rightarrow> str option" where
  "selector_of E task =
     (if py_in selector_word task \<or> py_in (asc ''selector'') (lower E task)
      then (case re_search_quoted task of
              None \<Rightarrow> None
            | Some selector_match \<Rightarrow> Some (snd selector_match))
      else None)"

text \<open>Lines 117 to 122: the task description of \<open>_extract_data\<close>.\<close>

definition extract_task_of :: "pyenv \<Rightarrow> str \<Rightarrow> str option \<Rightarrow> str" where
  "extract_task_of E task url =
     (let selector = selector_of E task
      in case url of
           None \<Rightarrow> task
         | Some u \<Rightarrow>
             if u = [] then task
             else
               (let extract_task = visit_prefix @ u @ then_infix @ task
                in case selector of
                     None \<Rightarrow> extract_task
                   | Some sel \<Rightarrow>
                       if sel = [] then extract_task
                       else extract_task @ selector_infix @ sel))"

definition extract_data ::
  "pyenv \<Rightarrow> valves \<Rightarrow> str \<Rightarrow> str option \<Rightarrow> request list \<Rightarrow> (exn + str) \<times> request list" where
  "extract_data E V task url log =
     (let (answer, log') = requests_post E (chat_request V (extract_task_of E task url)) log
      in (andthen answer (read_response extract_default extract_done extract_failed E),
          log'))"

datatype sub_intent = Extract | General

text \<open>Line 61: which of the two task functions runs.\<close>

definition sub_intent_of :: "pyenv \<Rightarrow> str \<Rightarrow> sub_intent" where
  "sub_intent_of E task =
     (if list_ex (\<lambda>keyword. py_in keyword (lower E task)) extract_keywords
      then Extract else General)"

text \<open>
  The \<open>except\<close> clauses of \<open>_execute_browser_task\<close>, tried in the order of the source:
  the first whose class the exception belongs to gives the result.
\<close>

definition handle :: "exn \<Rightarrow> str" where
  "handle e =
     (if is_connection_error e then cannot_connect
      else if is_timeout e then timed_out
      else execution_failed (detail e))"

definition execute_browser_task ::
  "pyenv \<Rightarrow> valves \<Rightarrow> str \<Rightarrow> request list \<Rightarrow> str \<times> request list" where
  "execute_browser_task E V task log =
     (let url = re_search_url task;
          (outcome, log') =
            (case sub_intent_of E task of
               Extract \<Rightarrow> extract_data E V task url log
             | General \<Rightarrow> execute_general_task E V task url log)
      in (case outcome of Inl e \<Rightarrow> handle e | Inr s \<Rightarrow> s, log'))"

definition has_url :: "str \<Rightarrow> bool" where
  "has_url user_message \<longleftrightarrow> re_search_url user_message \<noteq> None"

definition has_keyword :: "pyenv \<Rightarrow> str \<Rightarrow> bool" where
  "has_keyword E user_message \<longleftrightarrow>
     list_ex (\<lambda>keyword. py_in keyword (lower E user_message)) browser_keywords"

definition is_browser_task :: "pyenv \<Rightarrow> valves \<Rightarrow> str \<Rightarrow> bool" where
  "is_browser_task E V user_message \<longleftrightarrow>
     enable_auto_detection V \<and> (has_keyword E user_message \<or> has_url user_message)"

text \<open>
  \<open>pipe\<close> reads \<open>user_message\<close> only; \<open>model_id\<close>, \<open>messages\<close> and \<open>body\<close> are not used and
  are left out.
\<close>

definition pipe :: "pyenv \<Rightarrow> valves \<Rightarrow> str \<Rightarrow> request list \<Rightarrow> str \<times> request list" where
  "pipe E V user_message log =
     (if is_browser_task E V user_message then execute_browser_task E V user_message log
      else (user_message, log))"

section \<open>The notions of the specification\<close>

text \<open>The word \<open>w\<close> stands in \<open>s\<close> at index \<open>i\<close>.\<close>

definition occurs_at :: "str \<Rightarrow> nat \<Rightarrow> str \<Rightarrow> bool" where
  "occurs_at s i w \<longleftrightarrow> (\<exists>ps ss. s = ps @ w @ ss \<and> length ps = i)"

text \<open>\<open>s\<close> has a substring in the language \<open>L\<close>.\<close>

definition has_match :: "(str \<Rightarrow> bool) \<Rightarrow> str \<Rightarrow> bool" where
  "has_match L s \<longleftrightarrow> (\<exists>i w. occurs_at s i w \<and> L w)"

text \<open>
  The first match of \<open>L\<close> in \<open>s\<close>: no match starts further left, and no match starting
  at the same index is longer.
\<close>

definition first_match :: "(str \<Rightarrow> bool) \<Rightarrow> str \<Rightarrow> str \<Rightarrow> bool" where
  "first_match L s w \<longleftrightarrow>
     (\<exists>i. occurs_at s i w \<and> L w
        \<and> (\<forall>j w'. occurs_at s j w' \<and> L w' \<longrightarrow> i < j \<or> (i = j \<and> length w' \<le> length w)))"

text \<open>
  The strings the pattern \<open>https?://\S+\<close> matches as a whole: the scheme \<open>http\<close> or
  \<open>https\<close>, then \<open>://\<close>, then one or more characters none of which is whitespace.
\<close>

definition url_text :: "str \<Rightarrow> bool" where
  "url_text w \<longleftrightarrow>
     (\<exists>b. (w = asc ''http://'' @ b \<or> w = asc ''https://'' @ b) \<and> b \<noteq> []
          \<and> (\<forall>c\<in>set b. \<not> is_space c))"

text \<open>
  The strings the selector pattern matches as a whole: a quote character, one or more
  characters none of which is a quote character, a quote character. \<open>inner\<close> is the text
  between the two.
\<close>

definition quoted_text :: "str \<Rightarrow> bool" where
  "quoted_text w \<longleftrightarrow>
     (\<exists>q b q'. w = q # b @ [q'] \<and> is_quote q \<and> is_quote q' \<and> b \<noteq> []
              \<and> (\<forall>c\<in>set b. \<not> is_quote c))"

definition inner :: "str \<Rightarrow> str" where
  "inner w = butlast (tl w)"

text \<open>
  The selector in the words of the specification, "the first quoted substring (delimited
  by matching single or double quotes)": at the first quote character that occurs again
  later in the message, the text up to its next occurrence.
\<close>

fun spec_selector :: "str \<Rightarrow> str option" where
  "spec_selector [] = None"
| "spec_selector (q # t) =
     (if is_quote q \<and> q \<in> set t then Some (takeWhile (\<lambda>c. c \<noteq> q) t)
      else spec_selector t)"

text \<open>The keyword list as section 4.1 of the specification gives it.\<close>

definition spec_chinese_terms :: "str list" where
  "spec_chinese_terms =
     [[25171, 24320, 32593, 39029],
      [25171, 24320, 32593, 31449],
      [35775, 38382],
      [27983, 35272],
      [32593, 39029],
      [32593, 31449],
      [25552, 21462, 25968, 25454],
      [25235, 21462],
      [29228, 21462],
      [33719, 21462, 20869, 23481],
      [25130, 22270],
      [28857, 20987],
      [36755, 20837],
      [25628, 32034],
      [22635, 20889, 34920, 21333],
      [19979, 36733]]"

definition spec_english_terms :: "str list" where
  "spec_english_terms =
     [asc ''open website'', asc ''visit'', asc ''browse'', asc ''extract'', asc ''scrape'',
      asc ''click'', asc ''input'', asc ''search'', asc ''screenshot'']"

section \<open>Concrete inputs\<close>

text \<open>
  \<open>str.lower\<close> on a string whose only cased characters are ASCII letters, as every message
  below is (ASCII and Chinese text).
\<close>

definition ascii_lower :: "str \<Rightarrow> str" where
  "ascii_lower s = map (\<lambda>c. if 65 \<le> c \<and> c \<le> 90 then c + 32 else c) s"

text \<open>An interpreter whose \<open>requests.post\<close> answers every call with \<open>a\<close>.\<close>

definition answering :: "exn + response \<Rightarrow> pyenv" where
  "answering a =
     \<lparr>lower = ascii_lower, float_truth = (\<lambda>_. True), py_str = (\<lambda>_. asc ''None''),
      post = (\<lambda>_. a)\<rparr>"

text \<open>The defaults of the class \<open>Valves\<close>.\<close>

definition default_valves :: valves where
  "default_valves =
     \<lparr>chrome_agent_url = asc ''http://localhost:3000'', enable_auto_detection = True,
      timeout = 30\<rparr>"

text \<open>A status 200 whose body decodes to \<open>{"choices": [{"message": {"content": c}}]}\<close>.\<close>

definition ok_response :: "str \<Rightarrow> response" where
  "ok_response c =
     \<lparr>status_code = 200, body_text = [],
      json = Inr (JObj [(asc ''choices'',
               JArr [JObj [(asc ''message'', JObj [(asc ''content'', JStr c)])]])])\<rparr>"

text \<open>The messages of section 8 of the specification, and variations of them.\<close>

definition msg_chat :: str where
  "msg_chat = asc ''just chatting, how are you''"

definition msg_grab_title :: str where
  "msg_grab_title = [25235, 21462] @ asc '' https://example.com '' @ [30340, 26631, 39064]"

definition msg_open_url :: str where
  "msg_open_url = [25171, 24320] @ asc '' https://extract-data.example.com''"

definition msg_open_click :: str where
  "msg_open_click =
     [25171, 24320, 32593, 39029] @ asc '' https://a.com ''
     @ [24182, 28857, 20987, 25353, 38062]"

definition msg_selector :: str where
  "msg_selector =
     [25552, 21462] @ asc '' https://a.com '' @ [30340] @ asc '' selector '' @ [34]
     @ asc ''h1.title'' @ [34]"

definition msg_selector_mixed :: str where
  "msg_selector_mixed =
     [25552, 21462] @ asc '' https://a.com '' @ [30340] @ asc '' selector '' @ [34]
     @ asc ''h1'' @ [39]"

definition msg_selector_bare :: str where
  "msg_selector_bare = [25552, 21462] @ asc '' https://a.com '' @ [30340] @ asc '' selector h1''"

text \<open>
  Two answers with status 200 that do not have the expected shape: a body that is not
  JSON, so that \<open>json()\<close> raises, and \<open>{"choices": [{"message": null}]}\<close>.
\<close>

definition html_response :: response where
  "html_response =
     \<lparr>status_code = 200, body_text = asc ''<html></html>'',
      json = Inl (asc ''Expecting value: line 1 column 1 (char 0)'')\<rparr>"

definition null_message_response :: response where
  "null_message_response =
     \<lparr>status_code = 200, body_text = [],
      json = Inr (JObj [(asc ''choices'', JArr [JObj [(asc ''message'', JNull)]])])\<rparr>"

text \<open>The answer of the third scenario of section 8: status 500, body \<open>internal error\<close>.\<close>

definition error_response :: response where
  "error_response =
     \<lparr>status_code = 500, body_text = asc ''internal error'', json = Inl []\<rparr>"

text \<open>
  A \<open>requests.exceptions.ConnectTimeout\<close>, which is both a \<open>ConnectionError\<close> and a
  \<open>Timeout\<close>, and a \<open>requests.exceptions.ReadTimeout\<close>, which is a \<open>Timeout\<close> only.
\<close>

definition connect_timeout :: exn where
  "connect_timeout = Exn True True (asc ''connect timed out'')"

definition read_timeout :: exn where
  "read_timeout = Exn False True (asc ''read timed out'')"

section \<open>Substrings and searches\<close>

lemma py_in_iff: "py_in k s \<longleftrightarrow> (\<exists>ps ss. s = ps @ k @ ss)"
proof (induction s)
  case Nil
  then show ?case by auto
next
  case (Cons c cs)
  show ?case
  proof
    assume "py_in k (c # cs)"
    then consider "prefix k (c # cs)" | "py_in k cs" by auto
    then show "\<exists>ps ss. c # cs = ps @ k @ ss"
    proof cases
      case 1
      then obtain ss where "c # cs = k @ ss" by (auto simp: prefix_def)
      then have "c # cs = [] @ k @ ss" by simp
      then show ?thesis by blast
    next
      case 2
      with Cons obtain ps ss where "cs = ps @ k @ ss" by blast
      then have "c # cs = (c # ps) @ k @ ss" by simp
      then show ?thesis by blast
    qed
  next
    assume "\<exists>ps ss. c # cs = ps @ k @ ss"
    then obtain ps ss where e: "c # cs = ps @ k @ ss" by blast
    show "py_in k (c # cs)"
    proof (cases ps)
      case Nil
      with e have "prefix k (c # cs)" by (simp add: prefix_def)
      then show ?thesis by simp
    next
      case (Cons p ps')
      with e have "cs = ps' @ k @ ss" by simp
      with Cons.IH have "py_in k cs" by blast
      then show ?thesis by simp
    qed
  qed
qed

lemma re_search_None: "re_search m s = None \<longleftrightarrow> (\<forall>i\<le>length s. m (drop i s) = None)"
proof (induction s)
  case Nil
  then show ?case by simp
next
  case (Cons c cs)
  show ?case
  proof
    assume a: "re_search m (c # cs) = None"
    then have h: "m (c # cs) = None" and t: "re_search m cs = None"
      by (auto split: option.splits)
    show "\<forall>i\<le>length (c # cs). m (drop i (c # cs)) = None"
    proof (intro allI impI)
      fix i assume "i \<le> length (c # cs)"
      then show "m (drop i (c # cs)) = None"
        using h t Cons.IH by (cases i) auto
    qed
  next
    assume a: "\<forall>i\<le>length (c # cs). m (drop i (c # cs)) = None"
    then have h: "m (c # cs) = None" by (metis drop0 le0)
    have "\<forall>i\<le>length cs. m (drop i cs) = None"
    proof (intro allI impI)
      fix i assume "i \<le> length cs"
      then have "m (drop (Suc i) (c # cs)) = None" using a by (metis Suc_le_mono length_Cons)
      then show "m (drop i cs) = None" by simp
    qed
    with Cons.IH h show "re_search m (c # cs) = None" by simp
  qed
qed

lemma re_search_Some:
  "re_search m s = Some x \<longleftrightarrow>
     (\<exists>i\<le>length s. m (drop i s) = Some x \<and> (\<forall>j<i. m (drop j s) = None))"
proof (induction s)
  case Nil
  then show ?case by auto
next
  case (Cons c cs)
  show ?case
  proof (cases "m (c # cs)")
    case (Some y)
    have "(\<exists>i\<le>length (c # cs). m (drop i (c # cs)) = Some x \<and> (\<forall>j<i. m (drop j (c # cs)) = None))
          \<longleftrightarrow> y = x"
    proof
      assume "\<exists>i\<le>length (c # cs). m (drop i (c # cs)) = Some x \<and> (\<forall>j<i. m (drop j (c # cs)) = None)"
      then obtain i where i: "m (drop i (c # cs)) = Some x" "\<forall>j<i. m (drop j (c # cs)) = None"
        by blast
      have "i = 0"
      proof (rule ccontr)
        assume "i \<noteq> 0"
        then have "m (drop 0 (c # cs)) = None" using i(2) by blast
        with Some show False by simp
      qed
      with i(1) Some show "y = x" by simp
    next
      assume "y = x"
      with Some have "m (drop 0 (c # cs)) = Some x \<and> (\<forall>j<0. m (drop j (c # cs)) = None)" by simp
      then show "\<exists>i\<le>length (c # cs). m (drop i (c # cs)) = Some x \<and> (\<forall>j<i. m (drop j (c # cs)) = None)"
        by blast
    qed
    with Some show ?thesis by simp
  next
    case None
    have "(\<exists>i\<le>length (c # cs). m (drop i (c # cs)) = Some x \<and> (\<forall>j<i. m (drop j (c # cs)) = None))
          \<longleftrightarrow> (\<exists>i\<le>length cs. m (drop i cs) = Some x \<and> (\<forall>j<i. m (drop j cs) = None))"
    proof
      assume "\<exists>i\<le>length (c # cs). m (drop i (c # cs)) = Some x \<and> (\<forall>j<i. m (drop j (c # cs)) = None)"
      then obtain i where i: "i \<le> length (c # cs)" "m (drop i (c # cs)) = Some x"
        "\<forall>j<i. m (drop j (c # cs)) = None" by blast
      from i(2) None obtain k where k: "i = Suc k" by (cases i) auto
      have "\<forall>j<k. m (drop j cs) = None"
      proof (intro allI impI)
        fix j assume "j < k"
        then have "m (drop (Suc j) (c # cs)) = None" using i(3) k by blast
        then show "m (drop j cs) = None" by simp
      qed
      with i k show "\<exists>i\<le>length cs. m (drop i cs) = Some x \<and> (\<forall>j<i. m (drop j cs) = None)"
        by auto
    next
      assume "\<exists>i\<le>length cs. m (drop i cs) = Some x \<and> (\<forall>j<i. m (drop j cs) = None)"
      then obtain i where i: "i \<le> length cs" "m (drop i cs) = Some x"
        "\<forall>j<i. m (drop j cs) = None" by blast
      have "\<forall>j<Suc i. m (drop j (c # cs)) = None"
      proof (intro allI impI)
        fix j assume "j < Suc i"
        then show "m (drop j (c # cs)) = None" using None i(3) by (cases j) auto
      qed
      with i show "\<exists>i\<le>length (c # cs). m (drop i (c # cs)) = Some x \<and> (\<forall>j<i. m (drop j (c # cs)) = None)"
        by (intro exI[of _ "Suc i"]) simp
    qed
    with None Cons.IH show ?thesis by simp
  qed
qed

lemma strip_prefix_Some: "strip_prefix p s = Some t \<longleftrightarrow> s = p @ t"
  by (auto simp: strip_prefix_def prefix_def)

lemma strip_prefix_append: "strip_prefix p (p @ t) = Some t"
  by (simp add: strip_prefix_def)

lemma url_rest_Some:
  "url_rest r = Some m \<longleftrightarrow>
     (\<exists>t. r = asc ''://'' @ t \<and> takeWhile (\<lambda>c. \<not> is_space c) t \<noteq> []
          \<and> m = asc ''://'' @ takeWhile (\<lambda>c. \<not> is_space c) t)"
  by (auto simp: url_rest_def Let_def strip_prefix_Some strip_prefix_append split: option.splits)

lemma match_url_Some:
  "match_url s = Some w \<longleftrightarrow>
     (\<exists>t. (s = asc ''https://'' @ t \<and> w = asc ''https://'' @ takeWhile (\<lambda>c. \<not> is_space c) t
           \<or> s = asc ''http://'' @ t \<and> w = asc ''http://'' @ takeWhile (\<lambda>c. \<not> is_space c) t)
          \<and> takeWhile (\<lambda>c. \<not> is_space c) t \<noteq> [])"
proof
  assume a: "match_url s = Some w"
  then obtain r where r: "s = asc ''http'' @ r"
    by (auto simp: match_url_def strip_prefix_Some split: option.splits)
  let ?first = "case r of [] \<Rightarrow> None | c # r' \<Rightarrow> if c = 115 then url_rest r' else None"
  show "\<exists>t. (s = asc ''https://'' @ t \<and> w = asc ''https://'' @ takeWhile (\<lambda>c. \<not> is_space c) t
           \<or> s = asc ''http://'' @ t \<and> w = asc ''http://'' @ takeWhile (\<lambda>c. \<not> is_space c) t)
          \<and> takeWhile (\<lambda>c. \<not> is_space c) t \<noteq> []"
  proof (cases ?first)
    case (Some m)
    then obtain r' where r': "r = 115 # r'" "url_rest r' = Some m"
      by (auto split: list.splits if_splits)
    from a r Some have w: "w = asc ''https'' @ m"
      by (simp add: match_url_def strip_prefix_append)
    from r'(2) obtain t where "r' = asc ''://'' @ t" "takeWhile (\<lambda>c. \<not> is_space c) t \<noteq> []"
      "m = asc ''://'' @ takeWhile (\<lambda>c. \<not> is_space c) t"
      by (auto simp: url_rest_Some)
    with r r' w show ?thesis by (intro exI[of _ t]) (simp add: asc_def)
  next
    case None
    with a r obtain m where m: "url_rest r = Some m" "w = asc ''http'' @ m"
      by (auto simp: match_url_def strip_prefix_append split: option.splits)
    from m(1) obtain t where "r = asc ''://'' @ t" "takeWhile (\<lambda>c. \<not> is_space c) t \<noteq> []"
      "m = asc ''://'' @ takeWhile (\<lambda>c. \<not> is_space c) t"
      by (auto simp: url_rest_Some)
    with r m show ?thesis by (intro exI[of _ t]) (simp add: asc_def)
  qed
next
  assume "\<exists>t. (s = asc ''https://'' @ t \<and> w = asc ''https://'' @ takeWhile (\<lambda>c. \<not> is_space c) t
           \<or> s = asc ''http://'' @ t \<and> w = asc ''http://'' @ takeWhile (\<lambda>c. \<not> is_space c) t)
          \<and> takeWhile (\<lambda>c. \<not> is_space c) t \<noteq> []"
  then obtain t where t: "takeWhile (\<lambda>c. \<not> is_space c) t \<noteq> []"
    and d: "s = asc ''https://'' @ t \<and> w = asc ''https://'' @ takeWhile (\<lambda>c. \<not> is_space c) t
           \<or> s = asc ''http://'' @ t \<and> w = asc ''http://'' @ takeWhile (\<lambda>c. \<not> is_space c) t"
    by blast
  from d show "match_url s = Some w"
  proof
    assume h: "s = asc ''https://'' @ t \<and> w = asc ''https://'' @ takeWhile (\<lambda>c. \<not> is_space c) t"
    then have s: "s = asc ''http'' @ (115 # asc ''://'' @ t)" by (simp add: asc_def)
    have "url_rest (asc ''://'' @ t) = Some (asc ''://'' @ takeWhile (\<lambda>c. \<not> is_space c) t)"
      using t by (auto simp: url_rest_Some)
    then show ?thesis
      unfolding match_url_def s strip_prefix_append using h by (simp add: asc_def)
  next
    assume h: "s = asc ''http://'' @ t \<and> w = asc ''http://'' @ takeWhile (\<lambda>c. \<not> is_space c) t"
    then have s: "s = asc ''http'' @ (asc ''://'' @ t)" by (simp add: asc_def)
    have u: "url_rest (asc ''://'' @ t) = Some (asc ''://'' @ takeWhile (\<lambda>c. \<not> is_space c) t)"
      using t by (auto simp: url_rest_Some)
    have "(case asc ''://'' @ t of [] \<Rightarrow> None | c # r' \<Rightarrow> if c = 115 then url_rest r' else None) = None"
      by (simp add: asc_def)
    then show ?thesis
      unfolding match_url_def s strip_prefix_append using h u by (simp add: asc_def)
  qed
qed

lemma occurs_at_iff: "occurs_at s i w \<longleftrightarrow> i \<le> length s \<and> prefix w (drop i s)"
proof
  assume "occurs_at s i w"
  then obtain ps ss where "s = ps @ w @ ss" "length ps = i" by (auto simp: occurs_at_def)
  then show "i \<le> length s \<and> prefix w (drop i s)" by auto
next
  assume a: "i \<le> length s \<and> prefix w (drop i s)"
  then obtain ss where "drop i s = w @ ss" by (auto simp: prefix_def)
  then have "s = take i s @ w @ ss" by (metis append_take_drop_id)
  moreover have "length (take i s) = i" using a by simp
  ultimately show "occurs_at s i w" unfolding occurs_at_def by blast
qed

lemma match_url_sound: "match_url s = Some w \<Longrightarrow> prefix w s \<and> url_text w"
proof -
  assume "match_url s = Some w"
  then obtain t where t: "takeWhile (\<lambda>c. \<not> is_space c) t \<noteq> []"
    and d: "s = asc ''https://'' @ t \<and> w = asc ''https://'' @ takeWhile (\<lambda>c. \<not> is_space c) t
           \<or> s = asc ''http://'' @ t \<and> w = asc ''http://'' @ takeWhile (\<lambda>c. \<not> is_space c) t"
    unfolding match_url_Some by blast
  have p: "prefix (takeWhile (\<lambda>c. \<not> is_space c) t) t"
    by (metis prefixI takeWhile_dropWhile_id)
  have n: "\<forall>c\<in>set (takeWhile (\<lambda>c. \<not> is_space c) t). \<not> is_space c"
    by (auto dest: set_takeWhileD)
  from d p have "prefix w s" by auto
  moreover from d t n have "url_text w" unfolding url_text_def by blast
  ultimately show ?thesis by simp
qed

lemma takeWhile_covers:
  assumes "\<forall>c\<in>set b. P c"
  shows "takeWhile P (b @ ss) = b @ takeWhile P ss"
  using assms by (induction b) auto

lemma match_url_complete:
  assumes "prefix w' s" and "url_text w'"
  shows "\<exists>w. match_url s = Some w \<and> length w' \<le> length w"
proof -
  from assms(2) obtain b where b: "w' = asc ''http://'' @ b \<or> w' = asc ''https://'' @ b"
    "b \<noteq> []" "\<forall>c\<in>set b. \<not> is_space c"
    unfolding url_text_def by blast
  from assms(1) obtain ss where ss: "s = w' @ ss" by (auto simp: prefix_def)
  have tw: "takeWhile (\<lambda>c. \<not> is_space c) (b @ ss) = b @ takeWhile (\<lambda>c. \<not> is_space c) ss"
    using b(3) by (intro takeWhile_covers) simp
  with b(2) have ne: "takeWhile (\<lambda>c. \<not> is_space c) (b @ ss) \<noteq> []" by simp
  from b(1) show ?thesis
  proof
    assume h: "w' = asc ''http://'' @ b"
    then have "s = asc ''http://'' @ (b @ ss)" using ss by simp
    with ne have "match_url s = Some (asc ''http://'' @ takeWhile (\<lambda>c. \<not> is_space c) (b @ ss))"
      unfolding match_url_Some by blast
    with h tw show ?thesis by simp
  next
    assume h: "w' = asc ''https://'' @ b"
    then have "s = asc ''https://'' @ (b @ ss)" using ss by simp
    with ne have "match_url s = Some (asc ''https://'' @ takeWhile (\<lambda>c. \<not> is_space c) (b @ ss))"
      unfolding match_url_Some by blast
    with h tw show ?thesis by simp
  qed
qed

text \<open>
  A matcher that is sound and finds the longest match at its position gives the first
  match; \<open>g\<close> reads the matched text off the matcher's result.
\<close>

lemma re_search_first_match:
  assumes sound: "\<And>t x. m t = Some x \<Longrightarrow> prefix (g x) t \<and> L (g x)"
    and complete: "\<And>t w'. prefix w' t \<Longrightarrow> L w' \<Longrightarrow> \<exists>x. m t = Some x \<and> length w' \<le> length (g x)"
  shows "(has_match L s \<longrightarrow> (\<exists>x. re_search m s = Some x \<and> first_match L s (g x)))
         \<and> (\<not> has_match L s \<longrightarrow> re_search m s = None)"
proof (intro conjI impI)
  assume "has_match L s"
  then obtain i0 w0 where o: "occurs_at s i0 w0" "L w0" by (auto simp: has_match_def)
  then have "i0 \<le> length s" "prefix w0 (drop i0 s)" by (auto simp: occurs_at_iff)
  with complete[of w0 "drop i0 s"] o(2) obtain x1 where "m (drop i0 s) = Some x1" by blast
  with \<open>i0 \<le> length s\<close> have "re_search m s \<noteq> None" by (auto simp: re_search_None)
  then obtain x where x: "re_search m s = Some x" by auto
  then obtain i where i: "i \<le> length s" "m (drop i s) = Some x" "\<forall>j<i. m (drop j s) = None"
    unfolding re_search_Some by blast
  from sound[OF i(2)] i(1) have ou: "occurs_at s i (g x)" "L (g x)"
    by (auto simp: occurs_at_iff)
  have "\<forall>j w'. occurs_at s j w' \<and> L w' \<longrightarrow> i < j \<or> (i = j \<and> length w' \<le> length (g x))"
  proof (intro allI impI)
    fix j w' assume a: "occurs_at s j w' \<and> L w'"
    then have p: "prefix w' (drop j s)" by (auto simp: occurs_at_iff)
    with complete[of w' "drop j s"] a obtain y
      where y: "m (drop j s) = Some y" "length w' \<le> length (g y)"
      by blast
    show "i < j \<or> (i = j \<and> length w' \<le> length (g x))"
    proof (cases "j < i")
      case True
      with i(3) y(1) show ?thesis by simp
    next
      case False
      show ?thesis
      proof (cases "i = j")
        case True
        with y i(2) show ?thesis by simp
      next
        case False
        with \<open>\<not> j < i\<close> show ?thesis by simp
      qed
    qed
  qed
  with ou have "first_match L s (g x)" unfolding first_match_def by blast
  with x show "\<exists>x. re_search m s = Some x \<and> first_match L s (g x)" by blast
next
  assume n: "\<not> has_match L s"
  show "re_search m s = None"
  proof (rule ccontr)
    assume "re_search m s \<noteq> None"
    then obtain x where "re_search m s = Some x" by auto
    then obtain i where i: "i \<le> length s" "m (drop i s) = Some x"
      unfolding re_search_Some by blast
    from sound[OF i(2)] i(1) have "occurs_at s i (g x)" "L (g x)" by (auto simp: occurs_at_iff)
    with n show False by (auto simp: has_match_def)
  qed
qed

lemma search_url_first:
  "(has_match url_text s \<longrightarrow> (\<exists>u. re_search_url s = Some u \<and> first_match url_text s u))
   \<and> (\<not> has_match url_text s \<longrightarrow> re_search_url s = None)"
  unfolding re_search_url_def
  by (rule re_search_first_match[where g = "\<lambda>x. x"])
     (auto dest: match_url_sound match_url_complete)

lemma match_quoted_sound:
  assumes "match_quoted t = Some x"
  shows "prefix (fst x) t \<and> quoted_text (fst x) \<and> snd x = inner (fst x) \<and> snd x \<noteq> []"
proof -
  from assms obtain q r where t: "t = q # r" and q: "is_quote q"
    by (auto simp: match_quoted_def split: list.splits if_splits)
  let ?b = "takeWhile (\<lambda>c. \<not> is_quote c) r"
  let ?d = "dropWhile (\<lambda>c. \<not> is_quote c) r"
  from assms t q have b: "?b \<noteq> []"
    by (auto simp: match_quoted_def Let_def split: if_splits)
  from assms t q b obtain q' d' where d: "?d = q' # d'" and q': "is_quote q'"
    and x: "x = (q # ?b @ [q'], ?b)"
    by (auto simp: match_quoted_def Let_def split: list.splits if_splits)
  have "r = ?b @ ?d" by simp
  with d have "r = ?b @ q' # d'" by simp
  then have "t = (q # ?b @ [q']) @ d'" using t by simp
  then have p: "prefix (fst x) t" using x by (metis fst_conv prefixI)
  have n: "\<forall>c\<in>set ?b. \<not> is_quote c" by (auto dest: set_takeWhileD)
  have "quoted_text (q # ?b @ [q'])"
    unfolding quoted_text_def using q q' b n by blast
  moreover have "inner (q # ?b @ [q']) = ?b" by (simp add: inner_def)
  ultimately show ?thesis using p x b by simp
qed

lemma match_quoted_complete:
  assumes "prefix w' t" and "quoted_text w'"
  shows "\<exists>x. match_quoted t = Some x \<and> length w' \<le> length (fst x)"
proof -
  from assms(2) obtain q b q' where w: "w' = q # b @ [q']" and q: "is_quote q" "is_quote q'"
    and b: "b \<noteq> []" "\<forall>c\<in>set b. \<not> is_quote c"
    unfolding quoted_text_def by blast
  from assms(1) w obtain ss where t: "t = q # b @ q' # ss" by (auto simp: prefix_def)
  have tw: "takeWhile (\<lambda>c. \<not> is_quote c) (b @ q' # ss) = b"
    using b(2) q(2) by (simp add: takeWhile_covers)
  have dw: "dropWhile (\<lambda>c. \<not> is_quote c) (b @ q' # ss) = q' # ss"
    using b(2) q(2) by (simp add: dropWhile_append3)
  have "match_quoted t = Some (q # b @ [q'], b)"
    unfolding match_quoted_def t using q b(1) tw dw by simp
  with w show ?thesis by simp
qed

lemma search_quoted_first:
  "(has_match quoted_text s \<longrightarrow>
      (\<exists>x. re_search_quoted s = Some x \<and> first_match quoted_text s (fst x)))
   \<and> (\<not> has_match quoted_text s \<longrightarrow> re_search_quoted s = None)"
  unfolding re_search_quoted_def
  by (rule re_search_first_match[where g = fst])
     (auto dest: match_quoted_sound match_quoted_complete)

lemma search_quoted_inner:
  assumes "re_search_quoted s = Some x"
  shows "snd x = inner (fst x) \<and> snd x \<noteq> []"
proof -
  from assms obtain i where "match_quoted (drop i s) = Some x"
    unfolding re_search_quoted_def re_search_Some by blast
  from match_quoted_sound[OF this] show ?thesis by blast
qed

lemma search_url_nonempty:
  assumes "re_search_url s = Some u"
  shows "u \<noteq> []"
proof -
  from assms obtain i where "match_url (drop i s) = Some u"
    unfolding re_search_url_def re_search_Some by blast
  then have "url_text u" by (simp add: match_url_sound)
  then show ?thesis by (auto simp: url_text_def asc_def)
qed

lemma first_match_unique:
  assumes "first_match L s w" and "first_match L s w'"
  shows "w = w'"
proof -
  from assms(1) obtain i where i: "occurs_at s i w" "L w"
    "\<forall>j v. occurs_at s j v \<and> L v \<longrightarrow> i < j \<or> (i = j \<and> length v \<le> length w)"
    unfolding first_match_def by blast
  from assms(2) obtain i' where i': "occurs_at s i' w'" "L w'"
    "\<forall>j v. occurs_at s j v \<and> L v \<longrightarrow> i' < j \<or> (i' = j \<and> length v \<le> length w')"
    unfolding first_match_def by blast
  from i(3) i'(1,2) have a: "i < i' \<or> (i = i' \<and> length w' \<le> length w)" by blast
  from i'(3) i(1,2) have b: "i' < i \<or> (i' = i \<and> length w \<le> length w')" by blast
  from a b have e: "i = i'" "length w = length w'" by auto
  from i(1) i'(1) e(1) have "prefix w (drop i s)" "prefix w' (drop i s)"
    by (auto simp: occurs_at_iff)
  then obtain zs zs' where "drop i s = w @ zs" "drop i s = w' @ zs'"
    by (auto simp: prefix_def)
  then have "w @ zs = w' @ zs'" by simp
  with e(2) show ?thesis by simp
qed

lemma first_match_has_match: "first_match L s w \<Longrightarrow> has_match L s"
  by (auto simp: first_match_def has_match_def)

lemma search_url_iff: "re_search_url s = Some w \<longleftrightarrow> first_match url_text s w"
proof
  assume a: "re_search_url s = Some w"
  then have "has_match url_text s" using search_url_first[of s] by auto
  with search_url_first[of s] a show "first_match url_text s w" by auto
next
  assume a: "first_match url_text s w"
  then have "has_match url_text s" by (rule first_match_has_match)
  with search_url_first[of s] obtain u where u: "re_search_url s = Some u" "first_match url_text s u"
    by blast
  with a first_match_unique have "u = w" by blast
  with u show "re_search_url s = Some w" by simp
qed

lemma search_url_None: "re_search_url s = None \<longleftrightarrow> \<not> has_match url_text s"
  using search_url_first[of s] by auto

section \<open>The pipeline on a browser task\<close>

lemma has_keyword_iff:
  "has_keyword E msg \<longleftrightarrow> (\<exists>k\<in>set browser_keywords. \<exists>ps ss. lower E msg = ps @ k @ ss)"
  by (simp add: has_keyword_def list_ex_iff py_in_iff)

text \<open>What \<open>pipe\<close> does with a browser task, with the two task functions unfolded.\<close>

lemma pipe_browser_task:
  assumes "is_browser_task E V msg"
  shows "pipe E V msg log =
     (case sub_intent_of E msg of
        Extract \<Rightarrow>
          (case andthen (post E (chat_request V (extract_task_of E msg (re_search_url msg))))
                  (read_response extract_default extract_done extract_failed E) of
             Inl e \<Rightarrow> handle e | Inr s \<Rightarrow> s,
           log @ [chat_request V (extract_task_of E msg (re_search_url msg))])
      | General \<Rightarrow>
          (case andthen (post E (chat_request V (full_task_of msg (re_search_url msg))))
                  (read_response general_default general_done general_failed E) of
             Inl e \<Rightarrow> handle e | Inr s \<Rightarrow> s,
           log @ [chat_request V (full_task_of msg (re_search_url msg))]))"
  using assms
  by (simp add: pipe_def execute_browser_task_def extract_data_def execute_general_task_def
      requests_post_def Let_def split: sub_intent.splits)

section \<open>Messages that are passed through\<close>

lemma msg_chat_no_keyword:
  "\<not> (\<exists>k\<in>set browser_keywords. \<exists>ps ss.
         lower (answering a) msg_chat = ps @ k @ ss)"
  unfolding has_keyword_iff[symmetric]
  by (simp add: has_keyword_def answering_def msg_chat_def browser_keywords_def asc_def
      ascii_lower_def)

lemma msg_chat_no_url: "\<not> has_match url_text msg_chat"
  unfolding search_url_None[symmetric]
  by (simp add: msg_chat_def asc_def re_search_url_def match_url_def strip_prefix_def)

text \<open>
  C1. A message whose lowercased form contains none of the keywords and that has no
  substring matching \<open>https?://\S+\<close>, and any message at all when
  \<open>enable_auto_detection\<close> is off, is not a browser task, and \<open>pipe\<close> returns it
  unchanged without calling \<open>requests.post\<close>.
\<close>

theorem pipe_passthrough:
  "(\<not> (\<exists>k\<in>set browser_keywords. \<exists>ps ss. lower E msg = ps @ k @ ss)
      \<and> \<not> has_match url_text msg)
   \<or> \<not> enable_auto_detection V
   \<Longrightarrow> \<not> is_browser_task E V msg \<and> pipe E V msg log = (msg, log)"
  by (auto simp: pipe_def is_browser_task_def has_keyword_iff has_url_def search_url_None)

theorem pipe_passthrough_witness:
  "\<not> (\<exists>k\<in>set browser_keywords. \<exists>ps ss.
         lower (answering (Inr (ok_response []))) msg_chat = ps @ k @ ss)
   \<and> \<not> has_match url_text msg_chat
   \<and> pipe (answering (Inr (ok_response []))) default_valves msg_chat [] = (msg_chat, [])
   \<and> \<not> enable_auto_detection (default_valves\<lparr>enable_auto_detection := False\<rparr>)
   \<and> pipe (answering (Inr (ok_response [])))
        (default_valves\<lparr>enable_auto_detection := False\<rparr>) msg_grab_title []
      = (msg_grab_title, [])"
proof -
  have k: "\<not> (\<exists>k\<in>set browser_keywords. \<exists>ps ss.
         lower (answering (Inr (ok_response []))) msg_chat = ps @ k @ ss)"
    by (rule msg_chat_no_keyword)
  have off: "\<not> enable_auto_detection (default_valves\<lparr>enable_auto_detection := False\<rparr>)"
    by simp
  show ?thesis
    using pipe_passthrough[of "answering (Inr (ok_response []))" msg_chat default_valves "[]"]
      pipe_passthrough[of "answering (Inr (ok_response []))" msg_grab_title
        "default_valves\<lparr>enable_auto_detection := False\<rparr>" "[]"]
      k msg_chat_no_url off
    by blast
qed

section \<open>Browser tasks\<close>

lemma keyword_lists:
  "browser_keywords = spec_chinese_terms @ spec_english_terms
   \<and> length spec_chinese_terms = 16 \<and> length spec_english_terms = 9
   \<and> distinct browser_keywords"
  by (simp add: browser_keywords_def spec_chinese_terms_def spec_english_terms_def asc_def)

lemma upper_visit_keyword:
  "\<exists>k\<in>set browser_keywords. \<exists>ps ss.
      lower (answering a) (asc ''VISIT the park'') = ps @ k @ ss"
  unfolding has_keyword_iff[symmetric]
  by (simp add: has_keyword_def answering_def browser_keywords_def asc_def ascii_lower_def)

text \<open>
  C2. The keyword list of the source is the list of the specification, sixteen Chinese
  terms followed by nine English ones, and with \<open>enable_auto_detection\<close> on every
  message whose lowercased form contains one of them as a substring is a browser task,
  whether it has a URL or not.
\<close>

theorem keyword_gives_browser_task:
  "browser_keywords = spec_chinese_terms @ spec_english_terms
   \<and> length spec_chinese_terms = 16 \<and> length spec_english_terms = 9
   \<and> distinct browser_keywords
   \<and> (enable_auto_detection V
        \<and> (\<exists>k\<in>set browser_keywords. \<exists>ps ss. lower E msg = ps @ k @ ss)
      \<longrightarrow> is_browser_task E V msg)"
  using keyword_lists by (simp add: is_browser_task_def has_keyword_iff)

theorem keyword_gives_browser_task_witness:
  "enable_auto_detection default_valves
   \<and> (\<exists>k\<in>set browser_keywords. \<exists>ps ss.
        lower (answering (Inr (ok_response []))) (asc ''VISIT the park'') = ps @ k @ ss)
   \<and> re_search_url (asc ''VISIT the park'') = None
   \<and> is_browser_task (answering (Inr (ok_response []))) default_valves (asc ''VISIT the park'')"
proof -
  have en: "enable_auto_detection default_valves" by (simp add: default_valves_def)
  have nu: "re_search_url (asc ''VISIT the park'') = None"
    by (simp add: asc_def re_search_url_def match_url_def strip_prefix_def)
  show ?thesis
    using keyword_gives_browser_task[of default_valves "answering (Inr (ok_response []))"
        "asc ''VISIT the park''"]
      en nu upper_visit_keyword[of "Inr (ok_response [])"]
    by blast
qed

lemma msg_open_url_search:
  "re_search_url msg_open_url = Some (asc ''https://extract-data.example.com'')"
  by (simp add: msg_open_url_def asc_def re_search_url_def match_url_def strip_prefix_def
      url_rest_def is_space_def)

text \<open>
  C3. With \<open>enable_auto_detection\<close> on, a message with a substring matching
  \<open>https?://\S+\<close> is a browser task, keyword or not. The value of \<open>url\<close> at line 58 is
  \<open>re_search_url\<close> of the message: it is the first match of the pattern, and it is \<open>None\<close>
  exactly when the message has no match.
\<close>

theorem url_gives_browser_task:
  "(enable_auto_detection V \<and> has_match url_text msg \<longrightarrow> is_browser_task E V msg)
   \<and> (\<forall>w. re_search_url msg = Some w \<longleftrightarrow> first_match url_text msg w)
   \<and> (re_search_url msg = None \<longleftrightarrow> \<not> has_match url_text msg)"
  by (auto simp: is_browser_task_def has_url_def search_url_iff search_url_None)

theorem url_gives_browser_task_witness:
  "enable_auto_detection default_valves \<and> has_match url_text msg_open_url
   \<and> is_browser_task (answering (Inr (ok_response []))) default_valves msg_open_url
   \<and> first_match url_text msg_open_url (asc ''https://extract-data.example.com'')
   \<and> \<not> has_match url_text msg_chat \<and> re_search_url msg_chat = None"
proof -
  have en: "enable_auto_detection default_valves" by (simp add: default_valves_def)
  have hm: "has_match url_text msg_open_url"
    using msg_open_url_search search_url_None[of msg_open_url] by simp
  show ?thesis
    using url_gives_browser_task[of default_valves msg_open_url "answering (Inr (ok_response []))"]
      url_gives_browser_task[of default_valves msg_chat "answering (Inr (ok_response []))"]
      en hm msg_open_url_search msg_chat_no_url
    by blast
qed

section \<open>The calls of \<open>requests.post\<close>\<close>

lemma msg_open_url_browser_task: "is_browser_task (answering a) default_valves msg_open_url"
  using msg_open_url_search by (simp add: is_browser_task_def default_valves_def has_url_def)

lemma msg_chat_not_browser_task: "\<not> is_browser_task (answering a) default_valves msg_chat"
  using msg_chat_no_keyword[of a] msg_chat_no_url
  by (simp add: is_browser_task_def has_keyword_iff has_url_def search_url_None)

text \<open>
  C7. Whatever \<open>requests.post\<close> does (return any response, time out, fail), \<open>pipe\<close>
  calls it exactly once on a browser task, with the URL \<open>chrome_agent_url\<close> followed by
  \<open>/api/v1/chat/completions\<close>, and not at all on any other message.
\<close>

theorem one_request_per_browser_task:
  "(is_browser_task E V msg \<longrightarrow>
      (\<exists>r. snd (pipe E V msg log) = log @ [r]
         \<and> req_url r = chrome_agent_url V @ asc ''/api/v1/chat/completions''))
   \<and> (\<not> is_browser_task E V msg \<longrightarrow> snd (pipe E V msg log) = log)"
proof (intro conjI impI)
  assume b: "is_browser_task E V msg"
  show "\<exists>r. snd (pipe E V msg log) = log @ [r]
         \<and> req_url r = chrome_agent_url V @ asc ''/api/v1/chat/completions''"
    unfolding pipe_browser_task[OF b]
    by (cases "sub_intent_of E msg") (simp_all add: chat_request_def)
next
  assume "\<not> is_browser_task E V msg"
  then show "snd (pipe E V msg log) = log" by (simp add: pipe_def)
qed

theorem one_request_per_browser_task_witness:
  "is_browser_task (answering (Inl (Exn False True []))) default_valves msg_open_url
   \<and> (\<exists>r. snd (pipe (answering (Inl (Exn False True []))) default_valves msg_open_url [])
            = [r]
         \<and> req_url r = asc ''http://localhost:3000/api/v1/chat/completions'')
   \<and> \<not> is_browser_task (answering (Inl (Exn False True []))) default_valves msg_chat
   \<and> snd (pipe (answering (Inl (Exn False True []))) default_valves msg_chat []) = []"
proof -
  have u: "chrome_agent_url default_valves @ asc ''/api/v1/chat/completions''
           = asc ''http://localhost:3000/api/v1/chat/completions''"
    by (simp add: default_valves_def asc_def)
  show ?thesis
    using one_request_per_browser_task[of "answering (Inl (Exn False True []))" default_valves
        msg_open_url "[]"]
      one_request_per_browser_task[of "answering (Inl (Exn False True []))" default_valves
        msg_chat "[]"]
      msg_open_url_browser_task[of "Inl (Exn False True [])"]
      msg_chat_not_browser_task[of "Inl (Exn False True [])"] u
    by simp
qed

section \<open>The two kinds of browser task\<close>

lemma sub_intent_iff:
  "sub_intent_of E msg = Extract
   \<longleftrightarrow> (\<exists>k\<in>set extract_keywords. \<exists>ps ss. lower E msg = ps @ k @ ss)"
  by (simp add: sub_intent_of_def list_ex_iff py_in_iff)

lemma pipe_dispatch:
  assumes "is_browser_task E V msg"
  shows "pipe E V msg log =
     apfst (case_sum handle (\<lambda>s. s))
       (case sub_intent_of E msg of
          Extract \<Rightarrow> extract_data E V msg (re_search_url msg) log
        | General \<Rightarrow> execute_general_task E V msg (re_search_url msg) log)"
  using assms
  by (simp add: pipe_def execute_browser_task_def Let_def apfst_def map_prod_def
      split: prod.splits sum.splits)

lemma selector_nonempty:
  assumes "selector_of E task = Some sel"
  shows "sel \<noteq> []"
proof -
  from assms obtain x where x: "re_search_quoted task = Some x" "sel = snd x"
    by (auto simp: selector_of_def split: if_splits option.splits)
  from search_quoted_inner[OF x(1)] have "snd x \<noteq> []" by (rule conjunct2)
  with x(2) show ?thesis by simp
qed

lemma msg_grab_title_search:
  "re_search_url msg_grab_title = Some (asc ''https://example.com'')"
  by (simp add: msg_grab_title_def asc_def re_search_url_def match_url_def strip_prefix_def
      url_rest_def is_space_def)

lemma msg_grab_title_trigger: "list_ex (\<lambda>k. py_in k msg_grab_title) extract_keywords"
  by (simp add: msg_grab_title_def extract_keywords_def asc_def)

lemma msg_grab_title_lower: "lower (answering a) msg_grab_title = msg_grab_title"
  by (simp add: answering_def ascii_lower_def msg_grab_title_def asc_def)

lemma msg_open_click_search: "re_search_url msg_open_click = Some (asc ''https://a.com'')"
  by (simp add: msg_open_click_def asc_def re_search_url_def match_url_def strip_prefix_def
      url_rest_def is_space_def)

lemma msg_open_click_browser_task: "is_browser_task (answering a) default_valves msg_open_click"
  using msg_open_click_search by (simp add: is_browser_task_def default_valves_def has_url_def)

lemma msg_open_click_general: "sub_intent_of (answering a) msg_open_click = General"
  by (simp add: sub_intent_of_def answering_def ascii_lower_def msg_open_click_def asc_def
      extract_keywords_def)

lemma msg_open_url_lower: "lower (answering a) msg_open_url = msg_open_url"
  by (simp add: answering_def ascii_lower_def msg_open_url_def asc_def)

lemma py_in_trans:
  assumes "py_in k u" and "py_in u s"
  shows "py_in k s"
proof -
  from assms obtain ps ss ps' ss' where "u = ps @ k @ ss" "s = ps' @ u @ ss'"
    unfolding py_in_iff by blast
  then have "s = (ps' @ ps) @ k @ (ss @ ss')" by simp
  then show ?thesis unfolding py_in_iff by blast
qed

text \<open>
  C5. For a browser task, line 61 chooses \<open>Extract\<close> exactly when the lowercased message
  contains one of the five triggers, and \<open>General\<close> otherwise, and \<open>pipe\<close> runs
  \<open>_extract_data\<close> in the first case and \<open>_execute_general_task\<close> in the second. The
  message of section 8 (grab, a URL, "the title of"), which \<open>lower\<close> leaves as it is,
  is an \<open>Extract\<close> task with the URL \<open>https://example.com\<close>.
\<close>

theorem sub_intent_selection:
  "(is_browser_task E V msg \<longrightarrow>
      (sub_intent_of E msg = Extract
         \<longleftrightarrow> (\<exists>k\<in>set extract_keywords. \<exists>ps ss. lower E msg = ps @ k @ ss))
      \<and> (sub_intent_of E msg \<noteq> Extract \<longrightarrow> sub_intent_of E msg = General)
      \<and> pipe E V msg log =
          apfst (case_sum handle (\<lambda>s. s))
            (if \<exists>k\<in>set extract_keywords. \<exists>ps ss. lower E msg = ps @ k @ ss
             then extract_data E V msg (re_search_url msg) log
             else execute_general_task E V msg (re_search_url msg) log))
   \<and> extract_keywords
       = [[25552, 21462], [25235, 21462], [33719, 21462], asc ''extract'', asc ''scrape'']
   \<and> (enable_auto_detection V \<and> lower E msg_grab_title = msg_grab_title \<longrightarrow>
        is_browser_task E V msg_grab_title
        \<and> sub_intent_of E msg_grab_title = Extract
        \<and> re_search_url msg_grab_title = Some (asc ''https://example.com''))"
proof (intro conjI impI)
  assume b: "is_browser_task E V msg"
  show "sub_intent_of E msg = Extract
         \<longleftrightarrow> (\<exists>k\<in>set extract_keywords. \<exists>ps ss. lower E msg = ps @ k @ ss)"
    by (rule sub_intent_iff)
  show "sub_intent_of E msg = General" if "sub_intent_of E msg \<noteq> Extract"
    using that by (cases "sub_intent_of E msg") simp_all
  show "pipe E V msg log =
          apfst (case_sum handle (\<lambda>s. s))
            (if \<exists>k\<in>set extract_keywords. \<exists>ps ss. lower E msg = ps @ k @ ss
             then extract_data E V msg (re_search_url msg) log
             else execute_general_task E V msg (re_search_url msg) log)"
    unfolding pipe_dispatch[OF b] sub_intent_iff[symmetric]
    by (cases "sub_intent_of E msg") simp_all
next
  show "extract_keywords
       = [[25552, 21462], [25235, 21462], [33719, 21462], asc ''extract'', asc ''scrape'']"
    by (simp add: extract_keywords_def)
next
  assume a: "enable_auto_detection V \<and> lower E msg_grab_title = msg_grab_title"
  with msg_grab_title_search show "is_browser_task E V msg_grab_title"
    by (simp add: is_browser_task_def has_url_def)
  from a msg_grab_title_trigger show "sub_intent_of E msg_grab_title = Extract"
    by (simp add: sub_intent_of_def)
  show "re_search_url msg_grab_title = Some (asc ''https://example.com'')"
    by (rule msg_grab_title_search)
qed

theorem sub_intent_selection_witness:
  "is_browser_task (answering (Inr (ok_response []))) default_valves msg_open_click
   \<and> \<not> (\<exists>k\<in>set extract_keywords. \<exists>ps ss.
           lower (answering (Inr (ok_response []))) msg_open_click = ps @ k @ ss)
   \<and> pipe (answering (Inr (ok_response []))) default_valves msg_open_click []
      = apfst (case_sum handle (\<lambda>s. s))
          (execute_general_task (answering (Inr (ok_response []))) default_valves msg_open_click
             (re_search_url msg_open_click) [])
   \<and> enable_auto_detection default_valves
   \<and> lower (answering (Inr (ok_response []))) msg_grab_title = msg_grab_title
   \<and> sub_intent_of (answering (Inr (ok_response []))) msg_grab_title = Extract"
proof -
  have en: "enable_auto_detection default_valves" by (simp add: default_valves_def)
  have ne: "General \<noteq> Extract" by simp
  show ?thesis
    using sub_intent_selection[of "answering (Inr (ok_response []))" default_valves
        msg_open_click "[]"]
      msg_open_click_browser_task[of "Inr (ok_response [])"]
      msg_open_click_general[of "Inr (ok_response [])"]
      msg_grab_title_lower[of "Inr (ok_response [])"] en ne
    by simp
qed

text \<open>
  C10. The keyword tests read the whole lowercased message, the URL included. When the
  URL found in the message contains an \<open>Extract\<close> trigger in its lowercased form (and
  lowercasing the message lowercases the URL inside it), the message goes to
  \<open>_extract_data\<close>, whether or not the trigger also stands elsewhere; likewise a keyword of
  \<open>browser_keywords\<close> inside the URL makes the keyword test true. In the message "open"
  followed by \<open>https://extract-data.example.com\<close> the text before the URL contains no
  trigger, and the message is an \<open>Extract\<close> task.
\<close>

theorem keyword_inside_url:
  "(enable_auto_detection V \<and> re_search_url msg = Some u
      \<and> py_in (lower E u) (lower E msg)
      \<and> k \<in> set extract_keywords \<and> py_in k (lower E u) \<longrightarrow>
        sub_intent_of E msg = Extract
        \<and> pipe E V msg log
            = apfst (case_sum handle (\<lambda>s. s)) (extract_data E V msg (Some u) log))
   \<and> (re_search_url msg = Some u \<and> py_in (lower E u) (lower E msg)
      \<and> k' \<in> set browser_keywords \<and> py_in k' (lower E u) \<longrightarrow> has_keyword E msg)
   \<and> (enable_auto_detection V \<and> lower E msg_open_url = msg_open_url \<longrightarrow>
        msg_open_url = [25171, 24320, 32] @ asc ''https://extract-data.example.com''
        \<and> re_search_url msg_open_url = Some (asc ''https://extract-data.example.com'')
        \<and> \<not> list_ex (\<lambda>k. py_in k [25171, 24320, 32]) extract_keywords
        \<and> sub_intent_of E msg_open_url = Extract
        \<and> has_keyword E msg_open_url
        \<and> pipe E V msg_open_url log
            = apfst (case_sum handle (\<lambda>s. s))
                (extract_data E V msg_open_url
                   (Some (asc ''https://extract-data.example.com'')) log))"
proof (intro conjI impI)
  assume a: "enable_auto_detection V \<and> re_search_url msg = Some u
      \<and> py_in (lower E u) (lower E msg)
      \<and> k \<in> set extract_keywords \<and> py_in k (lower E u)"
  then have "py_in k (lower E msg)" using py_in_trans by blast
  with a show x: "sub_intent_of E msg = Extract"
    by (auto simp: sub_intent_of_def list_ex_iff)
  from a have "is_browser_task E V msg" by (simp add: is_browser_task_def has_url_def)
  from pipe_dispatch[OF this] x a
  show "pipe E V msg log
            = apfst (case_sum handle (\<lambda>s. s)) (extract_data E V msg (Some u) log)"
    by simp
next
  assume a: "re_search_url msg = Some u \<and> py_in (lower E u) (lower E msg)
      \<and> k' \<in> set browser_keywords \<and> py_in k' (lower E u)"
  then have "py_in k' (lower E msg)" using py_in_trans by blast
  with a show "has_keyword E msg" by (auto simp: has_keyword_def list_ex_iff)
next
  assume a: "enable_auto_detection V \<and> lower E msg_open_url = msg_open_url"
  show "msg_open_url = [25171, 24320, 32] @ asc ''https://extract-data.example.com''"
    by (simp add: msg_open_url_def asc_def)
  show "re_search_url msg_open_url = Some (asc ''https://extract-data.example.com'')"
    by (rule msg_open_url_search)
  show "\<not> list_ex (\<lambda>k. py_in k [25171, 24320, 32]) extract_keywords"
    by (simp add: extract_keywords_def asc_def)
  from a show x: "sub_intent_of E msg_open_url = Extract"
    by (simp add: sub_intent_of_def extract_keywords_def msg_open_url_def asc_def)
  from a show "has_keyword E msg_open_url"
    by (simp add: has_keyword_def browser_keywords_def msg_open_url_def asc_def)
  from a msg_open_url_search have "is_browser_task E V msg_open_url"
    by (simp add: is_browser_task_def has_url_def)
  from pipe_dispatch[OF this] x msg_open_url_search
  show "pipe E V msg_open_url log
            = apfst (case_sum handle (\<lambda>s. s))
                (extract_data E V msg_open_url
                   (Some (asc ''https://extract-data.example.com'')) log)"
    by simp
qed

theorem keyword_inside_url_witness:
  "enable_auto_detection default_valves
   \<and> re_search_url msg_open_url = Some (asc ''https://extract-data.example.com'')
   \<and> py_in (lower (answering (Inr (ok_response []))) (asc ''https://extract-data.example.com''))
        (lower (answering (Inr (ok_response []))) msg_open_url)
   \<and> asc ''extract'' \<in> set extract_keywords \<and> asc ''extract'' \<in> set browser_keywords
   \<and> py_in (asc ''extract'')
        (lower (answering (Inr (ok_response []))) (asc ''https://extract-data.example.com''))
   \<and> sub_intent_of (answering (Inr (ok_response []))) msg_open_url = Extract
   \<and> has_keyword (answering (Inr (ok_response []))) msg_open_url
   \<and> pipe (answering (Inr (ok_response []))) default_valves msg_open_url []
      = apfst (case_sum handle (\<lambda>s. s))
          (extract_data (answering (Inr (ok_response []))) default_valves msg_open_url
             (Some (asc ''https://extract-data.example.com'')) [])
   \<and> lower (answering (Inr (ok_response []))) msg_open_url = msg_open_url"
proof -
  have en: "enable_auto_detection default_valves" by (simp add: default_valves_def)
  have c: "py_in (lower (answering (Inr (ok_response []))) (asc ''https://extract-data.example.com''))
        (lower (answering (Inr (ok_response []))) msg_open_url)"
    by (simp add: answering_def ascii_lower_def msg_open_url_def asc_def)
  have m: "asc ''extract'' \<in> set extract_keywords" "asc ''extract'' \<in> set browser_keywords"
    by (simp_all add: extract_keywords_def browser_keywords_def)
  have i: "py_in (asc ''extract'')
        (lower (answering (Inr (ok_response []))) (asc ''https://extract-data.example.com''))"
    by (simp add: answering_def ascii_lower_def asc_def)
  show ?thesis
    using keyword_inside_url[of default_valves msg_open_url
        "asc ''https://extract-data.example.com''" "answering (Inr (ok_response []))"
        "asc ''extract''" "[]" "asc ''extract''"]
      en msg_open_url_search c m i msg_open_url_lower[of "Inr (ok_response [])"]
    by simp
qed

section \<open>The request\<close>

lemma msg_selector_search: "re_search_url msg_selector = Some (asc ''https://a.com'')"
  by (simp add: msg_selector_def asc_def re_search_url_def match_url_def strip_prefix_def
      url_rest_def is_space_def)

lemma msg_selector_browser_task: "is_browser_task (answering a) default_valves msg_selector"
  using msg_selector_search by (simp add: is_browser_task_def default_valves_def has_url_def)

lemma msg_selector_extract: "sub_intent_of (answering a) msg_selector = Extract"
  by (simp add: sub_intent_of_def answering_def ascii_lower_def msg_selector_def asc_def
      extract_keywords_def)

lemma msg_selector_selector: "selector_of (answering a) msg_selector = Some (asc ''h1.title'')"
  by (simp add: selector_of_def answering_def ascii_lower_def msg_selector_def asc_def
      selector_word_def re_search_quoted_def match_quoted_def is_quote_def)

text \<open>
  C6. The one request of a browser task carries one message of role \<open>user\<close>. When a URL
  was found its content is "visit", the URL, "then", the message, followed for an
  \<open>Extract\<close> task with a selector by "using selector:" and the selector; when no URL was
  found it is the message itself, for both kinds of task and whatever the selector.
\<close>

theorem request_content:
  "is_browser_task E V msg \<Longrightarrow>
     \<exists>r. snd (pipe E V msg log) = log @ [r]
       \<and> messages (req_json r) =
           [\<lparr>role = asc ''user'',
             content =
               (case re_search_url msg of
                  None \<Rightarrow> msg
                | Some url \<Rightarrow>
                    visit_prefix @ url @ then_infix @ msg
                    @ (case sub_intent_of E msg of
                         General \<Rightarrow> []
                       | Extract \<Rightarrow>
                           (case selector_of E msg of
                              None \<Rightarrow> []
                            | Some sel \<Rightarrow> selector_infix @ sel)))\<rparr>]"
proof -
  assume b: "is_browser_task E V msg"
  show ?thesis
  proof (cases "re_search_url msg")
    case None
    then show ?thesis
      unfolding pipe_browser_task[OF b]
      by (cases "sub_intent_of E msg")
         (simp_all add: chat_request_def full_task_of_def extract_task_of_def)
  next
    case (Some url)
    then have u: "url \<noteq> []" by (rule search_url_nonempty)
    show ?thesis
    proof (cases "sub_intent_of E msg")
      case General
      with Some u show ?thesis
        unfolding pipe_browser_task[OF b] by (simp add: chat_request_def full_task_of_def)
    next
      case Extract
      show ?thesis
      proof (cases "selector_of E msg")
        case None
        with Some u Extract show ?thesis
          unfolding pipe_browser_task[OF b]
          by (simp add: chat_request_def extract_task_of_def)
      next
        case (Some sel)
        then have "sel \<noteq> []" by (rule selector_nonempty)
        with Some \<open>re_search_url msg = Some url\<close> u Extract show ?thesis
          unfolding pipe_browser_task[OF b]
          by (simp add: chat_request_def extract_task_of_def)
      qed
    qed
  qed
qed

theorem request_content_witness:
  "is_browser_task (answering (Inr (ok_response []))) default_valves msg_selector
   \<and> (\<exists>r. snd (pipe (answering (Inr (ok_response []))) default_valves msg_selector []) = [r]
        \<and> messages (req_json r) =
            [\<lparr>role = asc ''user'',
              content = visit_prefix @ asc ''https://a.com'' @ then_infix @ msg_selector
                        @ selector_infix @ asc ''h1.title''\<rparr>])"
  using request_content[of "answering (Inr (ok_response []))" default_valves msg_selector "[]"]
    msg_selector_browser_task[of "Inr (ok_response [])"]
    msg_selector_search msg_selector_extract[of "Inr (ok_response [])"]
    msg_selector_selector[of "Inr (ok_response [])"]
  by simp

section \<open>The selector\<close>

lemma search_quoted_iff:
  "re_search_quoted s = Some x
   \<longleftrightarrow> first_match quoted_text s (fst x) \<and> snd x = inner (fst x)"
proof
  assume a: "re_search_quoted s = Some x"
  then have "has_match quoted_text s" using search_quoted_first[of s] by auto
  with search_quoted_first[of s] a have "first_match quoted_text s (fst x)" by auto
  moreover from search_quoted_inner[OF a] have "snd x = inner (fst x)" by (rule conjunct1)
  ultimately show "first_match quoted_text s (fst x) \<and> snd x = inner (fst x)" by simp
next
  assume a: "first_match quoted_text s (fst x) \<and> snd x = inner (fst x)"
  then have "has_match quoted_text s" using first_match_has_match by blast
  with search_quoted_first[of s] obtain y
    where y: "re_search_quoted s = Some y" "first_match quoted_text s (fst y)"
    by blast
  from search_quoted_inner[OF y(1)] have sy: "snd y = inner (fst y)" by (rule conjunct1)
  from a y(2) have "fst y = fst x" using first_match_unique by blast
  with sy a have "y = x" by (simp add: prod_eq_iff)
  with y(1) show "re_search_quoted s = Some x" by simp
qed

lemma search_quoted_None: "re_search_quoted s = None \<longleftrightarrow> \<not> has_match quoted_text s"
  using search_quoted_first[of s] by auto

lemma selector_of_iff:
  "selector_of E task = Some b
   \<longleftrightarrow> (py_in selector_word task \<or> py_in (asc ''selector'') (lower E task))
       \<and> (\<exists>w. first_match quoted_text task w \<and> b = inner w)"
proof
  assume a: "selector_of E task = Some b"
  then have t: "py_in selector_word task \<or> py_in (asc ''selector'') (lower E task)"
    by (auto simp: selector_of_def split: if_splits)
  with a obtain x where x: "re_search_quoted task = Some x" "b = snd x"
    by (auto simp: selector_of_def split: option.splits)
  from x(1) have "first_match quoted_text task (fst x)" "snd x = inner (fst x)"
    by (simp_all add: search_quoted_iff)
  with x(2) t show "(py_in selector_word task \<or> py_in (asc ''selector'') (lower E task))
       \<and> (\<exists>w. first_match quoted_text task w \<and> b = inner w)"
    by auto
next
  assume a: "(py_in selector_word task \<or> py_in (asc ''selector'') (lower E task))
       \<and> (\<exists>w. first_match quoted_text task w \<and> b = inner w)"
  then obtain w where w: "first_match quoted_text task w" "b = inner w" by blast
  then have "re_search_quoted task = Some (w, b)" by (simp add: search_quoted_iff)
  with a show "selector_of E task = Some b" by (simp add: selector_of_def)
qed

lemma msg_selector_mixed_trigger:
  "py_in (asc ''selector'') (lower (answering a) msg_selector_mixed)"
  by (simp add: answering_def ascii_lower_def msg_selector_mixed_def asc_def)

lemma msg_selector_trigger:
  "\<exists>ps ss. lower (answering a) msg_selector = ps @ asc ''selector'' @ ss"
  unfolding py_in_iff[symmetric]
  by (simp add: answering_def ascii_lower_def msg_selector_def asc_def)

lemma msg_selector_bare_trigger:
  "\<exists>ps ss. lower (answering a) msg_selector_bare = ps @ asc ''selector'' @ ss"
  unfolding py_in_iff[symmetric]
  by (simp add: answering_def ascii_lower_def msg_selector_bare_def asc_def)

lemma msg_selector_bare_no_quoted: "\<not> has_match quoted_text msg_selector_bare"
  unfolding search_quoted_None[symmetric]
  by (simp add: msg_selector_bare_def asc_def re_search_quoted_def match_quoted_def is_quote_def)

text \<open>
  C4, as the specification states it, fails: in a message with the word \<open>selector\<close>,
  one double quote and, after \<open>h1\<close>, one single quote, no text stands between matching
  quotes, and yet \<open>_extract_data\<close> takes \<open>h1\<close> as the selector.
\<close>

theorem selector_matching_quotes_counterexample:
  "py_in (asc ''selector'') (lower (answering (Inr (ok_response []))) msg_selector_mixed)
   \<and> spec_selector msg_selector_mixed = None
   \<and> selector_of (answering (Inr (ok_response []))) msg_selector_mixed = Some (asc ''h1'')"
  by (simp add: msg_selector_mixed_trigger)
     (simp add: selector_of_def answering_def ascii_lower_def msg_selector_mixed_def asc_def
       selector_word_def re_search_quoted_def match_quoted_def is_quote_def)

text \<open>
  C4, amended. A selector is found only if the message contains the Chinese word for
  selector or its lowercased form contains \<open>selector\<close>. With that trigger, the selector
  is the text inside the first match of: a quote character, one or more characters that
  are not quote characters, a quote character, where each of the two quote characters
  is a single or a double quote, independently of the other. When the message has no
  such match there is no selector, and nothing is raised.
\<close>

theorem selector_extraction:
  "(selector_of E task \<noteq> None \<longrightarrow>
      (\<exists>ps ss. task = ps @ selector_word @ ss)
      \<or> (\<exists>ps ss. lower E task = ps @ asc ''selector'' @ ss))
   \<and> ((\<exists>ps ss. task = ps @ selector_word @ ss)
       \<or> (\<exists>ps ss. lower E task = ps @ asc ''selector'' @ ss) \<longrightarrow>
        (\<forall>b. selector_of E task = Some b
              \<longleftrightarrow> (\<exists>w. first_match quoted_text task w \<and> b = inner w))
        \<and> (\<not> has_match quoted_text task \<longrightarrow> selector_of E task = None))"
proof (intro conjI impI allI)
  assume "selector_of E task \<noteq> None"
  then show "(\<exists>ps ss. task = ps @ selector_word @ ss)
      \<or> (\<exists>ps ss. lower E task = ps @ asc ''selector'' @ ss)"
    unfolding py_in_iff[symmetric] by (auto simp: selector_of_def split: if_splits)
next
  fix b
  assume "(\<exists>ps ss. task = ps @ selector_word @ ss)
       \<or> (\<exists>ps ss. lower E task = ps @ asc ''selector'' @ ss)"
  then have "py_in selector_word task \<or> py_in (asc ''selector'') (lower E task)"
    unfolding py_in_iff by simp
  then show "selector_of E task = Some b
              \<longleftrightarrow> (\<exists>w. first_match quoted_text task w \<and> b = inner w)"
    by (simp add: selector_of_iff)
next
  assume "\<not> has_match quoted_text task"
  then have "re_search_quoted task = None" by (simp add: search_quoted_None)
  then show "selector_of E task = None" by (simp add: selector_of_def)
qed

theorem selector_extraction_witness:
  "(\<exists>ps ss. lower (answering (Inr (ok_response []))) msg_selector
              = ps @ asc ''selector'' @ ss)
   \<and> (\<exists>w. first_match quoted_text msg_selector w \<and> asc ''h1.title'' = inner w)
   \<and> (\<exists>ps ss. lower (answering (Inr (ok_response []))) msg_selector_bare
              = ps @ asc ''selector'' @ ss)
   \<and> \<not> has_match quoted_text msg_selector_bare
   \<and> selector_of (answering (Inr (ok_response []))) msg_selector_bare = None
   \<and> (\<exists>w. first_match quoted_text msg_selector_mixed w \<and> asc ''h1'' = inner w)"
proof -
  have m: "selector_of (answering (Inr (ok_response []))) msg_selector_mixed = Some (asc ''h1'')"
    by (simp add: selector_of_def answering_def ascii_lower_def msg_selector_mixed_def asc_def
       selector_word_def re_search_quoted_def match_quoted_def is_quote_def)
  have mt: "\<exists>ps ss. lower (answering (Inr (ok_response []))) msg_selector_mixed
              = ps @ asc ''selector'' @ ss"
    using msg_selector_mixed_trigger[of "Inr (ok_response [])"] by (simp add: py_in_iff)
  show ?thesis
    using selector_extraction[of "answering (Inr (ok_response []))" msg_selector]
      selector_extraction[of "answering (Inr (ok_response []))" msg_selector_bare]
      selector_extraction[of "answering (Inr (ok_response []))" msg_selector_mixed]
      msg_selector_trigger[of "Inr (ok_response [])"]
      msg_selector_bare_trigger[of "Inr (ok_response [])"]
      msg_selector_selector[of "Inr (ok_response [])"]
      msg_selector_bare_no_quoted m mt
    by blast
qed

section \<open>Failures\<close>

lemma dict_get_plain: "dict_get v k d = Inl e \<Longrightarrow> handle e = execution_failed (detail e)"
  by (cases v) (auto simp: dict_get_def attribute_error_def handle_def)

lemma py_len_plain: "py_len v = Inl e \<Longrightarrow> handle e = execution_failed (detail e)"
  by (cases v) (auto simp: py_len_def len_type_error_def handle_def)

lemma index0_plain: "index0 v = Inl e \<Longrightarrow> handle e = execution_failed (detail e)"
  by (cases v)
     (auto simp: index0_def subscript_type_error_def handle_def split: list.splits)

text \<open>Whatever \<open>read_response\<close> raises is caught by the last handler.\<close>

lemma read_response_plain:
  assumes "read_response dflt done failed E r = Inl e"
  shows "handle e = execution_failed (detail e)"
proof -
  from assms have s: "status_code r = 200"
    by (auto simp: read_response_def split: if_splits)
  show ?thesis
  proof (cases "json r")
    case (Inl d)
    with assms s have "e = json_decode_error d"
      by (simp add: read_response_def andthen_def)
    then show ?thesis by (simp add: json_decode_error_def handle_def)
  next
    case (Inr result)
    show ?thesis
    proof (cases "dict_get result (asc ''choices'') JNull")
      case (Inl e')
      with assms s Inr have "e = e'" by (simp add: read_response_def andthen_def)
      with Inl dict_get_plain show ?thesis by blast
    next
      case c: (Inr choices)
      show ?thesis
      proof (cases "truthy E choices")
        case False
        with assms s Inr c show ?thesis by (simp add: read_response_def andthen_def)
      next
        case True
        show ?thesis
        proof (cases "py_len choices")
          case (Inl e')
          with assms s Inr c True have "e = e'" by (simp add: read_response_def andthen_def)
          with Inl py_len_plain show ?thesis by blast
        next
          case n: (Inr n)
          show ?thesis
          proof (cases "n > 0")
            case False
            with assms s Inr c True n show ?thesis
              by (simp add: read_response_def andthen_def)
          next
            case pos: True
            show ?thesis
            proof (cases "index0 choices")
              case (Inl e')
              with assms s Inr c True n pos have "e = e'"
                by (simp add: read_response_def andthen_def)
              with Inl index0_plain show ?thesis by blast
            next
              case f: (Inr first)
              show ?thesis
              proof (cases "dict_get first (asc ''message'') (JObj [])")
                case (Inl e')
                with assms s Inr c True n pos f have "e = e'"
                  by (simp add: read_response_def andthen_def)
                with Inl dict_get_plain show ?thesis by blast
              next
                case m: (Inr message)
                show ?thesis
                proof (cases "dict_get message (asc ''content'') (JStr dflt)")
                  case (Inl e')
                  with assms s Inr c True n pos f m have "e = e'"
                    by (simp add: read_response_def andthen_def)
                  with Inl dict_get_plain show ?thesis by blast
                next
                  case (Inr content)
                  with assms s \<open>json r = Inr result\<close> c True n pos f m show ?thesis
                    by (simp add: read_response_def andthen_def)
                qed
              qed
            qed
          qed
        qed
      qed
    qed
  qed
qed

text \<open>The result of \<open>pipe\<close> on a browser task, from the request and the answer to it.\<close>

lemma pipe_result:
  assumes b: "is_browser_task E V msg" and r: "snd (pipe E V msg log) = log @ [r]"
  shows "fst (pipe E V msg log) =
     (case post E r of
        Inl e \<Rightarrow> handle e
      | Inr resp \<Rightarrow>
          (case (case sub_intent_of E msg of
                   Extract \<Rightarrow> read_response extract_default extract_done extract_failed E resp
                 | General \<Rightarrow> read_response general_default general_done general_failed E resp) of
             Inl e \<Rightarrow> execution_failed (detail e)
           | Inr s \<Rightarrow> s))"
proof (cases "sub_intent_of E msg")
  case Extract
  with r have req: "r = chat_request V (extract_task_of E msg (re_search_url msg))"
    unfolding pipe_browser_task[OF b] by simp
  show ?thesis
    unfolding pipe_browser_task[OF b] req[symmetric] using Extract
    by (auto simp: andthen_def read_response_plain split: sum.splits)
next
  case General
  with r have req: "r = chat_request V (full_task_of msg (re_search_url msg))"
    unfolding pipe_browser_task[OF b] by simp
  show ?thesis
    unfolding pipe_browser_task[OF b] req[symmetric] using General
    by (auto simp: andthen_def read_response_plain split: sum.splits)
qed

lemma msg_open_click_request:
  "snd (pipe (answering a) default_valves msg_open_click [])
   = [] @ [chat_request default_valves
        (visit_prefix @ asc ''https://a.com'' @ then_infix @ msg_open_click)]"
  unfolding pipe_browser_task[OF msg_open_click_browser_task]
  by (simp add: msg_open_click_general msg_open_click_search full_task_of_def asc_def)

lemma answering_post: "post (answering a) r = a"
  by (simp add: answering_def)

text \<open>
  C8, as the specification states it, fails in one point: a timeout does not always give
  the timed-out string. The handler for \<open>ConnectionError\<close> stands first, and a timeout
  while connecting is an instance of both classes, so it gives the cannot-connect string.
\<close>

theorem timeout_message_counterexample:
  "is_timeout connect_timeout
   \<and> fst (pipe (answering (Inl connect_timeout)) default_valves msg_open_click [])
       = cannot_connect
   \<and> fst (pipe (answering (Inl connect_timeout)) default_valves msg_open_click [])
       \<noteq> timed_out"
proof -
  have "fst (pipe (answering (Inl connect_timeout)) default_valves msg_open_click [])
        = cannot_connect"
    unfolding pipe_result[OF msg_open_click_browser_task msg_open_click_request]
    by (simp add: answering_post connect_timeout_def handle_def)
  then show ?thesis by (simp add: connect_timeout_def cannot_connect_def timed_out_def)
qed

text \<open>
  C8, amended. \<open>pipe\<close> returns a string whatever happens to the request of a browser
  task. When \<open>requests.post\<close> raises, an exception that is a \<open>ConnectionError\<close> (a timeout
  while connecting included) gives the cannot-connect string, an exception that is a
  \<open>Timeout\<close> and not a \<open>ConnectionError\<close> gives the timed-out string, and any other gives
  the execution-failed string with \<open>str(e)\<close>. When \<open>requests.post\<close> returns, the result
  is the string the task function returns or, when reading the response raises, the
  execution-failed string with \<open>str(e)\<close>.
\<close>

theorem failures_become_strings:
  "is_browser_task E V msg \<and> snd (pipe E V msg log) = log @ [r] \<longrightarrow>
     (\<forall>e. post E r = Inl e \<longrightarrow>
        fst (pipe E V msg log) =
          (if is_connection_error e then cannot_connect
           else if is_timeout e then timed_out
           else execution_failed (detail e)))
     \<and> (\<forall>resp. post E r = Inr resp \<longrightarrow>
        fst (pipe E V msg log) =
          (case (case sub_intent_of E msg of
                   Extract \<Rightarrow> read_response extract_default extract_done extract_failed E resp
                 | General \<Rightarrow> read_response general_default general_done general_failed E resp) of
             Inl e \<Rightarrow> execution_failed (detail e)
           | Inr s \<Rightarrow> s))"
proof (intro impI)
  assume a: "is_browser_task E V msg \<and> snd (pipe E V msg log) = log @ [r]"
  then have p: "fst (pipe E V msg log) =
     (case post E r of
        Inl e \<Rightarrow> handle e
      | Inr resp \<Rightarrow>
          (case (case sub_intent_of E msg of
                   Extract \<Rightarrow> read_response extract_default extract_done extract_failed E resp
                 | General \<Rightarrow> read_response general_default general_done general_failed E resp) of
             Inl e \<Rightarrow> execution_failed (detail e)
           | Inr s \<Rightarrow> s))"
    by (simp add: pipe_result)
  show "(\<forall>e. post E r = Inl e \<longrightarrow>
        fst (pipe E V msg log) =
          (if is_connection_error e then cannot_connect
           else if is_timeout e then timed_out
           else execution_failed (detail e)))
     \<and> (\<forall>resp. post E r = Inr resp \<longrightarrow>
        fst (pipe E V msg log) =
          (case (case sub_intent_of E msg of
                   Extract \<Rightarrow> read_response extract_default extract_done extract_failed E resp
                 | General \<Rightarrow> read_response general_default general_done general_failed E resp) of
             Inl e \<Rightarrow> execution_failed (detail e)
           | Inr s \<Rightarrow> s))"
    unfolding p by (simp add: handle_def)
qed

theorem failures_become_strings_witness:
  "is_browser_task (answering (Inl read_timeout)) default_valves msg_open_click
   \<and> fst (pipe (answering (Inl read_timeout)) default_valves msg_open_click []) = timed_out
   \<and> fst (pipe (answering (Inl connect_timeout)) default_valves msg_open_click [])
       = cannot_connect
   \<and> fst (pipe (answering (Inl (Exn False False (asc ''boom'')))) default_valves
             msg_open_click [])
       = execution_failed (asc ''boom'')
   \<and> fst (pipe (answering (Inr html_response)) default_valves msg_open_click [])
       = execution_failed (asc ''Expecting value: line 1 column 1 (char 0)'')"
proof -
  have rd: "read_response general_default general_done general_failed
              (answering (Inr html_response)) html_response
            = Inl (json_decode_error (asc ''Expecting value: line 1 column 1 (char 0)''))"
    by (simp add: read_response_def html_response_def andthen_def)
  show ?thesis
    using failures_become_strings[of "answering (Inl read_timeout)" default_valves
        msg_open_click "[]"
        "chat_request default_valves
           (visit_prefix @ asc ''https://a.com'' @ then_infix @ msg_open_click)"]
      failures_become_strings[of "answering (Inl connect_timeout)" default_valves
        msg_open_click "[]"
        "chat_request default_valves
           (visit_prefix @ asc ''https://a.com'' @ then_infix @ msg_open_click)"]
      failures_become_strings[of "answering (Inl (Exn False False (asc ''boom'')))"
        default_valves msg_open_click "[]"
        "chat_request default_valves
           (visit_prefix @ asc ''https://a.com'' @ then_infix @ msg_open_click)"]
      failures_become_strings[of "answering (Inr html_response)" default_valves
        msg_open_click "[]"
        "chat_request default_valves
           (visit_prefix @ asc ''https://a.com'' @ then_infix @ msg_open_click)"]
      msg_open_click_browser_task msg_open_click_request msg_open_click_general rd
    by (simp add: answering_post read_timeout_def connect_timeout_def json_decode_error_def)
qed

section \<open>The answer of the backend\<close>

lemma read_response_other_status:
  "status_code r \<noteq> 200 \<Longrightarrow>
     read_response dflt done failed E r = Inr (server_error (status_code r) (body_text r))"
  by (simp add: read_response_def)

lemma read_response_undecodable:
  "status_code r = 200 \<Longrightarrow> json r = Inl d \<Longrightarrow>
     read_response dflt done failed E r = Inl (json_decode_error d)"
  by (simp add: read_response_def andthen_def)

lemma read_response_no_choices:
  assumes "status_code r = 200" and "json r = Inr (JObj kvs)"
    and "map_of kvs (asc ''choices'') = None \<or> map_of kvs (asc ''choices'') = Some JNull
         \<or> map_of kvs (asc ''choices'') = Some (JArr [])"
  shows "read_response dflt done failed E r = Inr failed"
  using assms by (auto simp: read_response_def andthen_def dict_get_def truthy_def)

lemma read_response_choices:
  assumes "status_code r = 200" and "json r = Inr (JObj kvs)"
    and "map_of kvs (asc ''choices'') = Some (JArr (JObj first # rest))"
  shows "map_of first (asc ''message'') = None \<longrightarrow>
           read_response dflt done failed E r = Inr (done @ dflt)"
    and "map_of first (asc ''message'') = Some (JObj m) \<longrightarrow>
           read_response dflt done failed E r
           = Inr (done @ (case map_of m (asc ''content'') of
                            None \<Rightarrow> dflt
                          | Some c \<Rightarrow> format_value E c))"
  using assms
  by (auto simp: read_response_def andthen_def dict_get_def truthy_def py_len_def index0_def
      format_value_def split: option.splits)

lemma read_response_shapes:
  "status_code r = 200 \<Longrightarrow>
     read_response dflt done failed E r = Inr failed
     \<or> (\<exists>c. read_response dflt done failed E r = Inr (done @ c))
     \<or> (\<exists>e. read_response dflt done failed E r = Inl e)"
  by (auto simp: read_response_def andthen_def split: sum.splits)

lemma msg_selector_request:
  "snd (pipe (answering a) default_valves msg_selector [])
   = [] @ [chat_request default_valves
        (visit_prefix @ asc ''https://a.com'' @ then_infix @ msg_selector @ selector_infix
         @ asc ''h1.title'')]"
  unfolding pipe_browser_task[OF msg_selector_browser_task]
  by (simp add: msg_selector_extract msg_selector_search msg_selector_selector
      extract_task_of_def asc_def)

lemma error_500_text:
  "server_error 500 (asc ''internal error'')
   = [10060, 32, 26381, 21153, 22120, 38169, 35823, 32, 40] @ asc ''500): internal error''"
  by (simp add: server_error_def str_of_int_def asc_def)

text \<open>
  C9, as the specification states it, fails: not every answer with status 200 gives the
  success string or the format-invalid string. When the body is not JSON there are no
  choices, and when the body is \<open>{"choices": [{"message": null}]}\<close> the choices are not
  empty and the content is missing; in both cases reading the response raises and the
  result is the execution-failed string.
\<close>

theorem status_200_counterexample:
  "status_code html_response = 200
   \<and> fst (pipe (answering (Inr html_response)) default_valves msg_open_click [])
       = execution_failed (asc ''Expecting value: line 1 column 1 (char 0)'')
   \<and> fst (pipe (answering (Inr html_response)) default_valves msg_open_click [])
       \<noteq> general_failed
   \<and> status_code null_message_response = 200
   \<and> fst (pipe (answering (Inr null_message_response)) default_valves msg_open_click [])
       = execution_failed
           ([39] @ asc ''NoneType'' @ [39] @ asc '' object has no attribute '' @ [39]
            @ asc ''get'' @ [39])
   \<and> fst (pipe (answering (Inr null_message_response)) default_valves msg_open_click [])
       \<noteq> general_done @ general_default"
proof -
  have h: "fst (pipe (answering (Inr html_response)) default_valves msg_open_click [])
       = execution_failed (asc ''Expecting value: line 1 column 1 (char 0)'')"
    unfolding pipe_result[OF msg_open_click_browser_task msg_open_click_request]
    by (simp add: answering_post msg_open_click_general read_response_def html_response_def
        andthen_def json_decode_error_def)
  have n: "fst (pipe (answering (Inr null_message_response)) default_valves msg_open_click [])
       = execution_failed
           ([39] @ asc ''NoneType'' @ [39] @ asc '' object has no attribute '' @ [39]
            @ asc ''get'' @ [39])"
    unfolding pipe_result[OF msg_open_click_browser_task msg_open_click_request]
    by (simp add: answering_post msg_open_click_general read_response_def
        null_message_response_def andthen_def dict_get_def truthy_def py_len_def index0_def
        attribute_error_def type_name_def asc_def)
  show ?thesis
    unfolding h n
    by (simp add: html_response_def null_message_response_def execution_failed_def
        general_failed_def general_done_def)
qed

text \<open>
  C9, amended. For the answer to the request of a browser task, with the strings of
  \<open>_extract_data\<close> for an \<open>Extract\<close> task and those of \<open>_execute_general_task\<close> otherwise:
  a status other than 200 gives the server-error string with the status in decimal and
  the body; status 200 with a body that decodes to an object whose \<open>choices\<close> are absent,
  \<open>null\<close> or an empty array gives the format-invalid string; status 200 with a body
  that decodes to an object whose \<open>choices\<close> are an array starting with an object gives
  the success string, with the default content when that object has no \<open>message\<close> or the
  message object has no \<open>content\<close>, and with the content otherwise (a string as it is),
  provided the message, when there is one, is an object; status 200 with a body that is
  not JSON gives the execution-failed string. Every answer with status 200 gives one of
  these three kinds of string.
\<close>

theorem response_mapping:
  "is_browser_task E V msg \<and> snd (pipe E V msg log) = log @ [r] \<and> post E r = Inr resp
   \<and> (sub_intent_of E msg = Extract \<and> dflt = extract_default \<and> done = extract_done
         \<and> failed = extract_failed
       \<or> sub_intent_of E msg = General \<and> dflt = general_default \<and> done = general_done
         \<and> failed = general_failed)
   \<longrightarrow>
     (status_code resp \<noteq> 200 \<longrightarrow>
        fst (pipe E V msg log) = server_error (status_code resp) (body_text resp))
     \<and> (status_code resp = 200 \<longrightarrow>
          (\<forall>kvs. json resp = Inr (JObj kvs) \<longrightarrow>
             (map_of kvs (asc ''choices'') = None
              \<or> map_of kvs (asc ''choices'') = Some JNull
              \<or> map_of kvs (asc ''choices'') = Some (JArr []) \<longrightarrow>
                fst (pipe E V msg log) = failed)
             \<and> (\<forall>first rest.
                  map_of kvs (asc ''choices'') = Some (JArr (JObj first # rest)) \<longrightarrow>
                    (map_of first (asc ''message'') = None \<longrightarrow>
                       fst (pipe E V msg log) = done @ dflt)
                    \<and> (\<forall>m. map_of first (asc ''message'') = Some (JObj m) \<longrightarrow>
                          fst (pipe E V msg log)
                          = done @ (case map_of m (asc ''content'') of
                                      None \<Rightarrow> dflt
                                    | Some c \<Rightarrow> format_value E c))))
          \<and> (\<forall>d. json resp = Inl d \<longrightarrow> fst (pipe E V msg log) = execution_failed d)
          \<and> (fst (pipe E V msg log) = failed
              \<or> (\<exists>c. fst (pipe E V msg log) = done @ c)
              \<or> (\<exists>d. fst (pipe E V msg log) = execution_failed d)))"
proof (intro impI)
  assume a: "is_browser_task E V msg \<and> snd (pipe E V msg log) = log @ [r]
   \<and> post E r = Inr resp
   \<and> (sub_intent_of E msg = Extract \<and> dflt = extract_default \<and> done = extract_done
         \<and> failed = extract_failed
       \<or> sub_intent_of E msg = General \<and> dflt = general_default \<and> done = general_done
         \<and> failed = general_failed)"
  then have "fst (pipe E V msg log) =
     (case post E r of
        Inl e \<Rightarrow> handle e
      | Inr resp \<Rightarrow>
          (case (case sub_intent_of E msg of
                   Extract \<Rightarrow> read_response extract_default extract_done extract_failed E resp
                 | General \<Rightarrow> read_response general_default general_done general_failed E resp) of
             Inl e \<Rightarrow> execution_failed (detail e)
           | Inr s \<Rightarrow> s))"
    by (simp add: pipe_result)
  with a have p: "fst (pipe E V msg log) =
     (case read_response dflt done failed E resp of
        Inl e \<Rightarrow> execution_failed (detail e) | Inr s \<Rightarrow> s)"
    by auto
  show "(status_code resp \<noteq> 200 \<longrightarrow>
        fst (pipe E V msg log) = server_error (status_code resp) (body_text resp))
     \<and> (status_code resp = 200 \<longrightarrow>
          (\<forall>kvs. json resp = Inr (JObj kvs) \<longrightarrow>
             (map_of kvs (asc ''choices'') = None
              \<or> map_of kvs (asc ''choices'') = Some JNull
              \<or> map_of kvs (asc ''choices'') = Some (JArr []) \<longrightarrow>
                fst (pipe E V msg log) = failed)
             \<and> (\<forall>first rest.
                  map_of kvs (asc ''choices'') = Some (JArr (JObj first # rest)) \<longrightarrow>
                    (map_of first (asc ''message'') = None \<longrightarrow>
                       fst (pipe E V msg log) = done @ dflt)
                    \<and> (\<forall>m. map_of first (asc ''message'') = Some (JObj m) \<longrightarrow>
                          fst (pipe E V msg log)
                          = done @ (case map_of m (asc ''content'') of
                                      None \<Rightarrow> dflt
                                    | Some c \<Rightarrow> format_value E c))))
          \<and> (\<forall>d. json resp = Inl d \<longrightarrow> fst (pipe E V msg log) = execution_failed d)
          \<and> (fst (pipe E V msg log) = failed
              \<or> (\<exists>c. fst (pipe E V msg log) = done @ c)
              \<or> (\<exists>d. fst (pipe E V msg log) = execution_failed d)))"
  proof (intro conjI impI allI)
    assume "status_code resp \<noteq> 200"
    then show "fst (pipe E V msg log) = server_error (status_code resp) (body_text resp)"
      unfolding p by (simp add: read_response_other_status)
  next
    fix kvs
    assume "status_code resp = 200" "json resp = Inr (JObj kvs)"
      "map_of kvs (asc ''choices'') = None
              \<or> map_of kvs (asc ''choices'') = Some JNull
              \<or> map_of kvs (asc ''choices'') = Some (JArr [])"
    then show "fst (pipe E V msg log) = failed"
      unfolding p by (simp add: read_response_no_choices)
  next
    fix kvs first rest
    assume "status_code resp = 200" "json resp = Inr (JObj kvs)"
      "map_of kvs (asc ''choices'') = Some (JArr (JObj first # rest))"
      "map_of first (asc ''message'') = None"
    then show "fst (pipe E V msg log) = done @ dflt"
      unfolding p using read_response_choices(1)[of resp kvs first rest dflt "done" failed E]
      by simp
  next
    fix kvs first rest m
    assume "status_code resp = 200" "json resp = Inr (JObj kvs)"
      "map_of kvs (asc ''choices'') = Some (JArr (JObj first # rest))"
      "map_of first (asc ''message'') = Some (JObj m)"
    then show "fst (pipe E V msg log)
                          = done @ (case map_of m (asc ''content'') of
                                      None \<Rightarrow> dflt
                                    | Some c \<Rightarrow> format_value E c)"
      unfolding p using read_response_choices(2)[of resp kvs first rest m dflt "done" failed E]
      by simp
  next
    fix d
    assume "status_code resp = 200" "json resp = Inl d"
    then show "fst (pipe E V msg log) = execution_failed d"
      unfolding p by (simp add: read_response_undecodable json_decode_error_def)
  next
    assume "status_code resp = 200"
    from read_response_shapes[OF this, of dflt "done" failed E]
    show "fst (pipe E V msg log) = failed
              \<or> (\<exists>c. fst (pipe E V msg log) = done @ c)
              \<or> (\<exists>d. fst (pipe E V msg log) = execution_failed d)"
      unfolding p by auto
  qed
qed

theorem response_mapping_witness:
  "is_browser_task (answering (Inr (ok_response (asc ''Clicked'')))) default_valves
     msg_open_click
   \<and> sub_intent_of (answering (Inr (ok_response (asc ''Clicked'')))) msg_open_click = General
   \<and> status_code (ok_response (asc ''Clicked'')) = 200
   \<and> fst (pipe (answering (Inr (ok_response (asc ''Clicked'')))) default_valves
            msg_open_click [])
       = general_done @ asc ''Clicked''
   \<and> sub_intent_of (answering (Inr (ok_response (asc ''Clicked'')))) msg_selector = Extract
   \<and> fst (pipe (answering (Inr (ok_response (asc ''Clicked'')))) default_valves
            msg_selector [])
       = extract_done @ asc ''Clicked''
   \<and> status_code error_response \<noteq> 200
   \<and> fst (pipe (answering (Inr error_response)) default_valves msg_open_click [])
       = [10060, 32, 26381, 21153, 22120, 38169, 35823, 32, 40]
         @ asc ''500): internal error''"
proof -
  have ok: "status_code (ok_response (asc ''Clicked'')) = 200"
    "json (ok_response (asc ''Clicked''))
     = Inr (JObj [(asc ''choices'',
              JArr [JObj [(asc ''message'', JObj [(asc ''content'', JStr (asc ''Clicked''))])]])])"
    by (simp_all add: ok_response_def)
  have look: "map_of [(asc ''choices'',
              JArr [JObj [(asc ''message'', JObj [(asc ''content'', JStr (asc ''Clicked''))])]])]
            (asc ''choices'')
          = Some (JArr (JObj [(asc ''message'', JObj [(asc ''content'', JStr (asc ''Clicked''))])] # []))"
    "map_of [(asc ''message'', JObj [(asc ''content'', JStr (asc ''Clicked''))])] (asc ''message'')
     = Some (JObj [(asc ''content'', JStr (asc ''Clicked''))])"
    "map_of [(asc ''content'', JStr (asc ''Clicked''))] (asc ''content'') = Some (JStr (asc ''Clicked''))"
    by simp_all
  have er: "status_code error_response = 500" "body_text error_response = asc ''internal error''"
    by (simp_all add: error_response_def)
  have g: "fst (pipe (answering (Inr (ok_response (asc ''Clicked'')))) default_valves
            msg_open_click [])
       = general_done @ asc ''Clicked''"
    using response_mapping[of "answering (Inr (ok_response (asc ''Clicked'')))" default_valves
        msg_open_click "[]"
        "chat_request default_valves
           (visit_prefix @ asc ''https://a.com'' @ then_infix @ msg_open_click)"
        "ok_response (asc ''Clicked'')" general_default general_done general_failed]
      msg_open_click_browser_task msg_open_click_request msg_open_click_general ok look
    by (simp add: answering_post format_value_def)
  have x: "fst (pipe (answering (Inr (ok_response (asc ''Clicked'')))) default_valves
            msg_selector [])
       = extract_done @ asc ''Clicked''"
    using response_mapping[of "answering (Inr (ok_response (asc ''Clicked'')))" default_valves
        msg_selector "[]"
        "chat_request default_valves
           (visit_prefix @ asc ''https://a.com'' @ then_infix @ msg_selector @ selector_infix
            @ asc ''h1.title'')"
        "ok_response (asc ''Clicked'')" extract_default extract_done extract_failed]
      msg_selector_browser_task msg_selector_request msg_selector_extract ok look
    by (simp add: answering_post format_value_def)
  have e: "fst (pipe (answering (Inr error_response)) default_valves msg_open_click [])
       = server_error 500 (asc ''internal error'')"
    using response_mapping[of "answering (Inr error_response)" default_valves
        msg_open_click "[]"
        "chat_request default_valves
           (visit_prefix @ asc ''https://a.com'' @ then_infix @ msg_open_click)"
        error_response general_default general_done general_failed]
      msg_open_click_browser_task msg_open_click_request msg_open_click_general er
    by (simp add: answering_post)
  show ?thesis
    using g x e error_500_text msg_open_click_browser_task msg_open_click_general
      msg_selector_extract ok(1) er(1)
    by simp
qed

end
